theory Spec2Isabelle
  imports Complex_Main "HOL-Library.Multiset" "HOL-Library.Sublist"
begin

section \<open>Values and errors\<close>

text \<open>
  A binary vector is a Python list of ints; a collection is a list of vectors. Lengths,
  indices and distances are natural numbers. Every exception the Python code can raise
  is a constructor of \<open>error\<close>; a function that can raise returns \<open>error + 'a\<close>,
  with \<open>Inl\<close> for the exception.
\<close>

type_synonym vec = "int list"

datatype value_error =
    LengthMismatch
  | MathDomain
  | EmptyMin
  | BadSample

datatype error =
    ValueError value_error
  | ZeroDivisionError
  | IndexError
  | TypeError

text \<open>
  The constructors of \<open>value_error\<close> tell the four origins of a ValueError apart:
  the explicit raise in \<open>calculate_hamming_distance\<close>, \<open>math.log2\<close> outside its domain,
  \<open>min\<close> of an empty sequence, and \<open>np.random.choice\<close> asked for more indices than
  there are positions.
\<close>

type_synonym pair = "vec \<times> vec"
type_synonym result = "nat \<times> pair option"

section \<open>Distance Metric (min_hamming_LSH.py, calculate_hamming_distance)\<close>

definition calculate_hamming_distance :: "vec \<Rightarrow> vec \<Rightarrow> error + nat" where
  "calculate_hamming_distance vec1 vec2 =
     (if length vec1 \<noteq> length vec2 then Inl (ValueError LengthMismatch)
      else Inr (sum_list (map (\<lambda>(b1, b2). if b1 \<noteq> b2 then 1 else 0) (zip vec1 vec2))))"

section \<open>Loops that can raise\<close>

text \<open>
  A \<open>for\<close> loop over a list, with the loop variables as the state; the first
  exception raised by the body ends the loop. \<open>map_err\<close> is the loop that appends
  one value per element to a list that starts empty.
\<close>

primrec fold_err :: "('a \<Rightarrow> 's \<Rightarrow> error + 's) \<Rightarrow> 'a list \<Rightarrow> 's \<Rightarrow> error + 's" where
  "fold_err f [] s = Inr s"
| "fold_err f (x # xs) s = (case f x s of Inl e \<Rightarrow> Inl e | Inr s' \<Rightarrow> fold_err f xs s')"

primrec map_err :: "('a \<Rightarrow> error + 'b) \<Rightarrow> 'a list \<Rightarrow> error + 'b list" where
  "map_err f [] = Inr []"
| "map_err f (x # xs) =
     (case f x of Inl e \<Rightarrow> Inl e
      | Inr y \<Rightarrow> (case map_err f xs of Inl e \<Rightarrow> Inl e | Inr ys \<Rightarrow> Inr (y # ys)))"

section \<open>Exact Search (min_hamming.py, find_min_hamming_distance)\<close>

text \<open>
  The body of the inner loop: the state is \<open>(min_distance, min_pair)\<close>. The indices
  \<open>i\<close> and \<open>j\<close> come from \<open>range(len(vectors))\<close>, so \<open>vectors ! i\<close> is in range.
\<close>

definition exact_step :: "vec list \<Rightarrow> nat \<Rightarrow> nat \<Rightarrow> result \<Rightarrow> error + result" where
  "exact_step vectors i j st =
     (case calculate_hamming_distance (vectors ! i) (vectors ! j) of
        Inl e \<Rightarrow> Inl e
      | Inr distance \<Rightarrow>
          Inr (if distance < fst st then (distance, Some (vectors ! i, vectors ! j)) else st))"

definition find_min_hamming_distance :: "vec list \<Rightarrow> error + result" where
  "find_min_hamming_distance vectors =
     (case vectors of
        [] \<Rightarrow> Inl IndexError
      | v0 # _ \<Rightarrow>
          fold_err (\<lambda>i. fold_err (\<lambda>j. exact_step vectors i j) [i + 1 ..< length vectors])
            [0 ..< length vectors] (length v0 + 1, None))"

section \<open>Group-Filtered Search (min_hamming_LSH.py, find_min_hamming_distance_in_group)\<close>

text \<open>
  \<open>all(vectors[i][idx] == vectors[j][idx] for idx in indices)\<close>: the generator is
  consumed from the left and \<open>all\<close> stops at the first position that differs; an
  index outside either vector raises IndexError when it is reached.
\<close>

fun all_match :: "vec \<Rightarrow> vec \<Rightarrow> nat list \<Rightarrow> error + bool" where
  "all_match u v [] = Inr True"
| "all_match u v (idx # rest) =
     (if length u \<le> idx \<or> length v \<le> idx then Inl IndexError
      else if u ! idx = v ! idx then all_match u v rest
      else Inr False)"

text \<open>
  The loop state is \<open>(min_distance, min_pair)\<close>, together with the log of the index
  pairs for which \<open>calculate_hamming_distance\<close> has been called. The log is not a value
  of the program: it records the calls, so that which pairs have their distance computed
  can be stated.
\<close>

definition group_step ::
  "vec list \<Rightarrow> nat list \<Rightarrow> nat \<Rightarrow> nat \<Rightarrow> result \<times> (nat \<times> nat) list
     \<Rightarrow> error + result \<times> (nat \<times> nat) list" where
  "group_step vectors indices i j st =
     (case all_match (vectors ! i) (vectors ! j) indices of
        Inl e \<Rightarrow> Inl e
      | Inr False \<Rightarrow> Inr st
      | Inr True \<Rightarrow>
          (case calculate_hamming_distance (vectors ! i) (vectors ! j) of
             Inl e \<Rightarrow> Inl e
           | Inr distance \<Rightarrow>
               Inr (if distance < fst (fst st) then (distance, Some (vectors ! i, vectors ! j))
                    else fst st,
                    snd st @ [(i, j)])))"

definition find_min_hamming_distance_in_group_logged ::
  "vec list \<Rightarrow> nat list \<Rightarrow> error + result \<times> (nat \<times> nat) list" where
  "find_min_hamming_distance_in_group_logged vectors indices =
     (case vectors of
        [] \<Rightarrow> Inl IndexError
      | v0 # _ \<Rightarrow>
          fold_err
            (\<lambda>i. fold_err (\<lambda>j. group_step vectors indices i j) [i + 1 ..< length vectors])
            [0 ..< length vectors] ((length v0 + 1, None), []))"

definition find_min_hamming_distance_in_group :: "vec list \<Rightarrow> nat list \<Rightarrow> error + result" where
  "find_min_hamming_distance_in_group vectors indices =
     (case find_min_hamming_distance_in_group_logged vectors indices of
        Inl e \<Rightarrow> Inl e
      | Inr (res, calls) \<Rightarrow> Inr res)"

section \<open>Random draws\<close>

text \<open>
  \<open>np.random.choice(a, size, replace=False)\<close> is library code. It raises ValueError
  when the requested size \<open>k\<close> is negative or exceeds the population \<open>a\<close>, and
  otherwise returns \<open>k\<close> distinct indices below \<open>a\<close>. The indices it returns are an
  input of the model (\<open>drawn\<close>); \<open>bit_position_sample\<close> says what a real draw
  satisfies.
\<close>

definition random_choice :: "nat list \<Rightarrow> nat \<Rightarrow> int \<Rightarrow> error + nat list" where
  "random_choice drawn a k =
     (if k < 0 \<or> int a < k then Inl (ValueError BadSample) else Inr drawn)"

definition bit_position_sample :: "nat list \<Rightarrow> nat \<Rightarrow> int \<Rightarrow> bool" where
  "bit_position_sample drawn a k \<longleftrightarrow>
     int (length drawn) = k \<and> distinct drawn \<and> list_all (\<lambda>i. i < a) drawn"

section \<open>Bucketizer (min_hamming_LSH.py, classify_vectors_by_random_bits)\<close>

text \<open>\<open>tuple(vec[i] for i in indices)\<close>\<close>

fun key_of :: "vec \<Rightarrow> nat list \<Rightarrow> error + int list" where
  "key_of vec [] = Inr []"
| "key_of vec (i # rest) =
     (if length vec \<le> i then Inl IndexError
      else (case key_of vec rest of Inl e \<Rightarrow> Inl e | Inr k \<Rightarrow> Inr (vec ! i # k)))"

text \<open>
  \<open>groups[key].append(vec)\<close> on a \<open>defaultdict(list)\<close>: a dict keeps its keys in
  the order of their first insertion, so it is an association list; a new key goes to the
  end with a one-element group.
\<close>

fun dict_append :: "'k \<Rightarrow> 'v \<Rightarrow> ('k \<times> 'v list) list \<Rightarrow> ('k \<times> 'v list) list" where
  "dict_append key v [] = [(key, [v])]"
| "dict_append key v ((k, g) # rest) =
     (if k = key then (k, g @ [v]) # rest else (k, g) # dict_append key v rest)"

definition classify_step ::
  "nat list \<Rightarrow> vec \<Rightarrow> (int list \<times> vec list) list \<Rightarrow> error + (int list \<times> vec list) list" where
  "classify_step indices vec groups =
     (case key_of vec indices of
        Inl e \<Rightarrow> Inl e
      | Inr key \<Rightarrow> Inr (dict_append key vec groups))"

definition classify_vectors_by_random_bits ::
  "nat list \<Rightarrow> vec list \<Rightarrow> int \<Rightarrow> error + vec list list" where
  "classify_vectors_by_random_bits drawn vectors num_of_bits =
     (case vectors of
        [] \<Rightarrow> Inr []
      | v0 # _ \<Rightarrow>
          (case random_choice drawn (length v0) num_of_bits of
             Inl e \<Rightarrow> Inl e
           | Inr indices \<Rightarrow>
               (case fold_err (classify_step indices) vectors [] of
                  Inl e \<Rightarrow> Inl e
                | Inr groups \<Rightarrow> Inr (map snd groups))))"

section \<open>Minimum of a list of results (Python's min on tuples)\<close>

text \<open>
  Python compares lists lexicographically, a proper prefix being smaller. Tuples are
  compared at the first component where they differ (by \<open>==\<close>); when none differs and
  the lengths are equal the tuples are not in the relation \<open><\<close>. \<open>None == None\<close> holds,
  \<open>None\<close> and a tuple are unequal, and \<open><\<close> between \<open>None\<close> and a tuple raises
  TypeError.
\<close>

fun list_lt :: "int list \<Rightarrow> int list \<Rightarrow> bool" where
  "list_lt [] [] = False"
| "list_lt [] (y # ys) = True"
| "list_lt (x # xs) [] = False"
| "list_lt (x # xs) (y # ys) = (if x = y then list_lt xs ys else x < y)"

definition pair_lt :: "pair \<Rightarrow> pair \<Rightarrow> bool" where
  "pair_lt p q =
     (if fst p \<noteq> fst q then list_lt (fst p) (fst q)
      else if snd p \<noteq> snd q then list_lt (snd p) (snd q)
      else False)"

definition result_lt :: "result \<Rightarrow> result \<Rightarrow> error + bool" where
  "result_lt r s =
     (if fst r \<noteq> fst s then Inr (fst r < fst s)
      else (case (snd r, snd s) of
              (None, None) \<Rightarrow> Inr False
            | (Some p, Some q) \<Rightarrow> Inr (pair_lt p q)
            | _ \<Rightarrow> Inl TypeError))"

text \<open>
  \<open>min(xs)\<close>: ValueError on an empty list; otherwise the first element is the
  candidate and a later item replaces it when \<open>item < candidate\<close>.
\<close>

definition min_step :: "result \<Rightarrow> result \<Rightarrow> error + result" where
  "min_step item best =
     (case result_lt item best of Inl e \<Rightarrow> Inl e | Inr b \<Rightarrow> Inr (if b then item else best))"

definition py_min :: "result list \<Rightarrow> error + result" where
  "py_min rs =
     (case rs of
        [] \<Rightarrow> Inl (ValueError EmptyMin)
      | r # rest \<Rightarrow> fold_err min_step rest r)"

section \<open>One round (min_hamming_LSH.py, find_min_hamming_distance_across_groups)\<close>

definition find_min_hamming_distance_across_groups ::
  "nat list \<Rightarrow> vec list list \<Rightarrow> nat \<Rightarrow> int \<Rightarrow> error + result" where
  "find_min_hamming_distance_across_groups drawn groups vector_length num_of_sample_bits =
     (case random_choice drawn vector_length num_of_sample_bits of
        Inl e \<Rightarrow> Inl e
      | Inr sample_bits \<Rightarrow>
          (case map_err (\<lambda>group. find_min_hamming_distance_in_group group sample_bits) groups of
             Inl e \<Rightarrow> Inl e
           | Inr min_values \<Rightarrow> py_min min_values))"

section \<open>LSH Aggregator (min_hamming_LSH.py, find_min_hamming_using_LSH)\<close>

text \<open>
  The two widths are computed in floating point. They are modelled on the reals:
  \<open>math.log2\<close> raises ValueError outside its domain, \<open>/\<close> raises
  ZeroDivisionError, and \<open>round\<close> rounds a half to the even neighbour. At the arguments
  0, 1, 2 and 4 evaluated below the floating-point functions return the real values
  exactly, and for a collection of two or more vectors both compute the grouping width
  without a fault. The search itself does not depend on the values of the widths:
  \<open>lsh_rounds\<close> takes them as parameters.
\<close>

definition py_log2 :: "real \<Rightarrow> error + real" where
  "py_log2 x = (if x \<le> 0 then Inl (ValueError MathDomain) else Inr (log 2 x))"

definition py_truediv :: "real \<Rightarrow> real \<Rightarrow> error + real" where
  "py_truediv x y = (if y = 0 then Inl ZeroDivisionError else Inr (x / y))"

definition py_round :: "real \<Rightarrow> int" where
  "py_round x =
     (if x - of_int \<lfloor>x\<rfloor> = 1 / 2 then (if even \<lfloor>x\<rfloor> then \<lfloor>x\<rfloor> else \<lfloor>x\<rfloor> + 1)
      else \<lfloor>x + 1 / 2\<rfloor>)"

text \<open>\<open>round(math.log2(len(vectors) / math.log2(len(vectors))))\<close>, as a function of \<open>len(vectors)\<close>\<close>

definition lsh_width :: "nat \<Rightarrow> error + int" where
  "lsh_width m =
     (case py_log2 (real m) of
        Inl e \<Rightarrow> Inl e
      | Inr l \<Rightarrow>
          (case py_truediv (real m) l of
             Inl e \<Rightarrow> Inl e
           | Inr q \<Rightarrow> (case py_log2 q of Inl e \<Rightarrow> Inl e | Inr l2 \<Rightarrow> Inr (py_round l2))))"

text \<open>\<open>round(math.log2(len(vectors[0])))\<close>, as a function of \<open>len(vectors[0])\<close>\<close>

definition filter_width :: "nat \<Rightarrow> error + int" where
  "filter_width n = (case py_log2 (real n) of Inl e \<Rightarrow> Inl e | Inr l \<Rightarrow> Inr (py_round l))"

text \<open>
  The body of the loop over the rounds. A round makes two draws: the grouping sample of
  the Bucketizer, then the filter sample.
\<close>

definition lsh_round ::
  "nat list \<times> nat list \<Rightarrow> vec list \<Rightarrow> nat \<Rightarrow> int \<Rightarrow> int \<Rightarrow> error + result" where
  "lsh_round draws vectors vector_length num_of_lsh_bits log_n =
     (case classify_vectors_by_random_bits (fst draws) vectors num_of_lsh_bits of
        Inl e \<Rightarrow> Inl e
      | Inr vectors_groups \<Rightarrow>
          find_min_hamming_distance_across_groups (snd draws) vectors_groups vector_length log_n)"

definition lsh_rounds ::
  "(nat \<Rightarrow> nat list \<times> nat list) \<Rightarrow> vec list \<Rightarrow> nat \<Rightarrow> int \<Rightarrow> int \<Rightarrow> int \<Rightarrow> error + result" where
  "lsh_rounds rng vectors vector_length num_of_lsh_bits log_n iterations =
     (case map_err (\<lambda>r. lsh_round (rng r) vectors vector_length num_of_lsh_bits log_n)
             [0 ..< nat iterations] of
        Inl e \<Rightarrow> Inl e
      | Inr results \<Rightarrow> py_min results)"

text \<open>
  \<open>rng r\<close> is the pair of draws of round \<open>r\<close>. \<open>range(iterations)\<close> is empty for
  a count that is zero or negative.
\<close>

definition find_min_hamming_using_LSH ::
  "(nat \<Rightarrow> nat list \<times> nat list) \<Rightarrow> vec list \<Rightarrow> int \<Rightarrow> error + result" where
  "find_min_hamming_using_LSH rng vectors iterations =
     (case lsh_width (length vectors) of
        Inl e \<Rightarrow> Inl e
      | Inr num_of_lsh_bits \<Rightarrow>
          (case vectors of
             [] \<Rightarrow> Inl IndexError
           | v0 # _ \<Rightarrow>
               (case filter_width (length v0) of
                  Inl e \<Rightarrow> Inl e
                | Inr log_n \<Rightarrow>
                    lsh_rounds rng vectors (length v0) num_of_lsh_bits log_n iterations)))"

section \<open>Evaluation Harness (comparison.py)\<close>

text \<open>
  The vectors of a trial are generated at random; the generated collection and the draws
  of the LSH rounds are the inputs of the model, in place of the two shape parameters of
  the generator.
\<close>

definition get_min_hamming_results ::
  "vec list \<Rightarrow> (nat \<Rightarrow> nat list \<times> nat list) \<Rightarrow> int \<Rightarrow> error + nat \<times> nat" where
  "get_min_hamming_results binary_vectors rng lsh_iter =
     (case find_min_hamming_distance binary_vectors of
        Inl e \<Rightarrow> Inl e
      | Inr exact_result \<Rightarrow>
          (case find_min_hamming_using_LSH rng binary_vectors lsh_iter of
             Inl e \<Rightarrow> Inl e
           | Inr approx_result \<Rightarrow> Inr (fst exact_result, fst approx_result)))"

text \<open>
  The loop state of \<open>compare_result\<close> is \<open>(correct_counter, results)\<close>. The function
  prints two numbers; the model returns them, before formatting, as rationals:
  \<open>(percentage_of_hits, percentage_of_error)\<close>. \<open>source t\<close> is the randomness of
  trial \<open>t\<close>.
\<close>

definition trial_step ::
  "(nat \<Rightarrow> vec list \<times> (nat \<Rightarrow> nat list \<times> nat list)) \<Rightarrow> int \<Rightarrow> nat
     \<Rightarrow> nat \<times> (nat \<times> nat) list \<Rightarrow> error + nat \<times> (nat \<times> nat) list" where
  "trial_step source lsh_iter t st =
     (case get_min_hamming_results (fst (source t)) (snd (source t)) lsh_iter of
        Inl e \<Rightarrow> Inl e
      | Inr (exact, approximate) \<Rightarrow>
          Inr (fst st + (if exact = approximate then 1 else 0),
               snd st @ [(exact, approximate)]))"

definition relative_error :: "nat \<times> nat \<Rightarrow> rat" where
  "relative_error r = (of_nat (snd r) - of_nat (fst r)) / of_nat (fst r)"

definition compare_result ::
  "(nat \<Rightarrow> vec list \<times> (nat \<Rightarrow> nat list \<times> nat list)) \<Rightarrow> int \<Rightarrow> int \<Rightarrow> error + rat \<times> rat" where
  "compare_result source num_of_cmp_iterations lsh_iter =
     (case fold_err (trial_step source lsh_iter) [0 ..< nat num_of_cmp_iterations] (0, []) of
        Inl e \<Rightarrow> Inl e
      | Inr (correct_counter, results) \<Rightarrow>
          if num_of_cmp_iterations = 0 then Inl ZeroDivisionError
          else
            let percentage_of_hits = of_nat correct_counter / of_int num_of_cmp_iterations * 100;
                valid_results = filter (\<lambda>(exact, approx). exact \<noteq> 0) results;
                percentage_of_error =
                  (if valid_results \<noteq> []
                   then sum_list (map relative_error valid_results)
                          / of_nat (length valid_results) * 100
                   else 0)
            in Inr (percentage_of_hits, percentage_of_error))"

section \<open>Vocabulary of the specification\<close>

text \<open>
  The Hamming distance as the specification words it: the number of positions at which
  two vectors differ.
\<close>

definition hamming :: "vec \<Rightarrow> vec \<Rightarrow> nat" where
  "hamming u v = card {i. i < length u \<and> u ! i \<noteq> v ! i}"

text \<open>
  The index pairs \<open>(i, j)\<close> visited by the two nested loops, in the order of the visit,
  and the order itself: outer index first, then inner index.
\<close>

definition index_pairs :: "nat \<Rightarrow> (nat \<times> nat) list" where
  "index_pairs m = concat (map (\<lambda>i. map (Pair i) [i + 1 ..< m]) [0 ..< m])"

definition pairs_from :: "nat \<Rightarrow> nat \<Rightarrow> (nat \<times> nat) list" where
  "pairs_from k m = concat (map (\<lambda>i. map (Pair i) [i + 1 ..< m]) [k ..< m])"

definition lex_less :: "nat \<times> nat \<Rightarrow> nat \<times> nat \<Rightarrow> bool" where
  "lex_less p q \<longleftrightarrow> fst p < fst q \<or> (fst p = fst q \<and> snd p < snd q)"

text \<open>
  One step of a scan that keeps the first item of least measure \<open>f\<close>, and the measure
  and value of an index pair of a collection.
\<close>

definition first_min_step ::
  "('a \<Rightarrow> nat) \<Rightarrow> ('a \<Rightarrow> 'b) \<Rightarrow> 'a \<Rightarrow> nat \<times> 'b option \<Rightarrow> nat \<times> 'b option" where
  "first_min_step f g x st = (if f x < fst st then (f x, Some (g x)) else st)"

definition ham_at :: "vec list \<Rightarrow> nat \<times> nat \<Rightarrow> nat" where
  "ham_at vs p = hamming (vs ! fst p) (vs ! snd p)"

definition pair_at :: "vec list \<Rightarrow> nat \<times> nat \<Rightarrow> pair" where
  "pair_at vs p = (vs ! fst p, vs ! snd p)"

text \<open>Two vectors of a collection agree at all the positions of a sample.\<close>

definition agree_at :: "vec list \<Rightarrow> nat list \<Rightarrow> nat \<times> nat \<Rightarrow> bool" where
  "agree_at vs idxs p = list_all (\<lambda>k. vs ! fst p ! k = vs ! snd p ! k) idxs"

text \<open>One visit of the Group-Filtered Search, with the log of the calls.\<close>

definition logged_step ::
  "vec list \<Rightarrow> nat list \<Rightarrow> nat \<times> nat \<Rightarrow> result \<times> (nat \<times> nat) list \<Rightarrow> result \<times> (nat \<times> nat) list" where
  "logged_step vs idxs p st =
     (if agree_at vs idxs p
      then (first_min_step (ham_at vs) (pair_at vs) p (fst st), snd st @ [p])
      else st)"

text \<open>
  The grouping loop without its exceptions, from a given dict, and the key of a vector:
  its values at the sampled positions.
\<close>

definition group_by :: "('v \<Rightarrow> 'k) \<Rightarrow> 'v list \<Rightarrow> ('k \<times> 'v list) list \<Rightarrow> ('k \<times> 'v list) list" where
  "group_by K xs al = fold (\<lambda>v. dict_append (K v) v) xs al"

definition key_at :: "nat list \<Rightarrow> vec \<Rightarrow> int list" where
  "key_at idxs v = map (nth v) idxs"

text \<open>No result without a pair has the distance of a result with a pair.\<close>

definition tie_free :: "result set \<Rightarrow> bool" where
  "tie_free S \<longleftrightarrow> (\<forall>r\<in>S. \<forall>s\<in>S. fst r = fst s \<longrightarrow> (snd r = None \<longleftrightarrow> snd s = None))"

text \<open>
  Three trials on four vectors of length four: a miss, a hit, and a hit at distance zero.
\<close>

definition example_source :: "nat \<Rightarrow> vec list \<times> (nat \<Rightarrow> nat list \<times> nat list)" where
  "example_source t =
     (if t = 0 then ([[0, 0, 0, 0], [0, 0, 0, 1], [1, 1, 1, 0], [1, 0, 1, 1]], \<lambda>r. ([3], [0, 2]))
      else if t = 1 then ([[0, 0, 0, 0], [0, 0, 0, 1], [1, 1, 1, 0], [1, 0, 1, 1]], \<lambda>r. ([2], [0, 2]))
      else ([[0, 0, 0, 0], [0, 0, 0, 0], [1, 1, 1, 0], [1, 0, 1, 1]], \<lambda>r. ([2], [0, 2])))"

text \<open>
  The shape of a result of a run over vectors of length \<open>n\<close>: the sentinel, or a
  pair with a distance of at most \<open>n\<close>.
\<close>

definition run_result :: "nat \<Rightarrow> result \<Rightarrow> bool" where
  "run_result n r \<longleftrightarrow> r = (n + 1, None) \<or> (fst r \<le> n \<and> snd r \<noteq> None)"

section \<open>Distance Metric: properties\<close>

lemma count_differing:
  "sum_list (map (\<lambda>(b1, b2). if b1 \<noteq> b2 then 1 else 0) xs) = length (filter (\<lambda>(b1, b2). b1 \<noteq> b2) xs)"
  by (induction xs) auto

lemma calculate_hamming_distance_eq:
  assumes "length a = length b"
  shows "calculate_hamming_distance a b = Inr (hamming a b)"
proof -
  have "length (filter (\<lambda>(b1, b2). b1 \<noteq> b2) (zip a b)) = card {i. i < length a \<and> a ! i \<noteq> b ! i}"
    unfolding length_filter_conv_card using assms
    by (intro arg_cong[where f=card]) auto
  then show ?thesis
    using assms by (simp add: calculate_hamming_distance_def count_differing hamming_def)
qed

lemma calculate_hamming_distance_Inr:
  "calculate_hamming_distance a b = Inr d \<Longrightarrow> length a = length b \<and> d = hamming a b"
  using calculate_hamming_distance_eq[of a b]
  by (cases "length a = length b") (auto simp: calculate_hamming_distance_def)

lemma hamming_le: "hamming u v \<le> length u"
proof -
  have "card {i. i < length u \<and> u ! i \<noteq> v ! i} \<le> card {..<length u}"
    by (rule card_mono) auto
  then show ?thesis by (simp add: hamming_def)
qed

lemma hamming_sym: "length u = length v \<Longrightarrow> hamming u v = hamming v u"
  unfolding hamming_def by (rule arg_cong[where f=card]) auto

lemma hamming_zero_iff: "length u = length v \<Longrightarrow> hamming u v = 0 \<longleftrightarrow> u = v"
proof -
  assume len: "length u = length v"
  have fin: "finite {i. i < length u \<and> u ! i \<noteq> v ! i}" by simp
  have "hamming u v = 0 \<longleftrightarrow> (\<forall>i<length u. u ! i = v ! i)"
    unfolding hamming_def card_0_eq[OF fin] by auto
  also have "\<dots> \<longleftrightarrow> u = v"
    using len by (auto simp: list_eq_iff_nth_eq)
  finally show ?thesis .
qed

text \<open>
  C7: the Distance Metric raises the ValueError of a length mismatch exactly when the two
  vectors have different lengths, raises nothing else, and for vectors of equal length
  returns the number of positions at which they differ.
\<close>
theorem calculate_hamming_distance_spec:
  "(calculate_hamming_distance a b = Inl (ValueError LengthMismatch) \<longleftrightarrow> length a \<noteq> length b) \<and>
   (\<forall>e. calculate_hamming_distance a b = Inl e \<longrightarrow> e = ValueError LengthMismatch) \<and>
   (length a = length b \<longrightarrow> calculate_hamming_distance a b = Inr (hamming a b))"
proof (cases "length a = length b")
  case True
  then show ?thesis by (simp add: calculate_hamming_distance_eq)
next
  case False
  then show ?thesis by (simp add: calculate_hamming_distance_def)
qed

theorem calculate_hamming_distance_spec_witness:
  "length [0, 1, 1, 0 :: int] = length [1, 1, 0, 0 :: int] \<and>
   calculate_hamming_distance [0, 1, 1, 0] [1, 1, 0, 0] = Inr 2 \<and>
   hamming [0, 1, 1, 0] [1, 1, 0, 0] = 2 \<and>
   length [0, 1, 1, 0 :: int] \<noteq> length [1, 1, 0, 0, 1 :: int] \<and>
   calculate_hamming_distance [0, 1, 1, 0] [1, 1, 0, 0, 1] = Inl (ValueError LengthMismatch)"
proof -
  have len: "length [0, 1, 1, 0 :: int] = length [1, 1, 0, 0 :: int]" by simp
  have ev: "calculate_hamming_distance [0, 1, 1, 0] [1, 1, 0, 0] = Inr 2"
    by (simp add: calculate_hamming_distance_def)
  from calculate_hamming_distance_spec [of "[0, 1, 1, 0]" "[1, 1, 0, 0]"] len
  have "calculate_hamming_distance [0, 1, 1, 0] [1, 1, 0, 0] = Inr (hamming [0, 1, 1, 0] [1, 1, 0, 0])"
    by blast
  with ev have ham: "hamming [0, 1, 1, 0] [1, 1, 0, 0] = 2" by simp
  have neq: "length [0, 1, 1, 0 :: int] \<noteq> length [1, 1, 0, 0, 1 :: int]" by simp
  from calculate_hamming_distance_spec [of "[0, 1, 1, 0]" "[1, 1, 0, 0, 1]"] neq
  have "calculate_hamming_distance [0, 1, 1, 0] [1, 1, 0, 0, 1] = Inl (ValueError LengthMismatch)"
    by blast
  with len ev ham neq show ?thesis by (intro conjI)
qed

text \<open>
  C8: on vectors of equal length the Distance Metric is symmetric, and it returns zero
  if and only if the two vectors are equal.
\<close>
theorem calculate_hamming_distance_symmetric_zero:
  assumes "length a = length b"
  shows "calculate_hamming_distance a b = calculate_hamming_distance b a \<and>
         (calculate_hamming_distance a b = Inr 0 \<longleftrightarrow> a = b)"
  using assms calculate_hamming_distance_eq[of a b] calculate_hamming_distance_eq[of b a]
    hamming_sym[of a b] hamming_zero_iff[of a b]
  by simp

theorem calculate_hamming_distance_symmetric_zero_witness:
  "length [0, 1, 1 :: int] = length [1, 1, 0 :: int] \<and>
   calculate_hamming_distance [0, 1, 1] [1, 1, 0] = calculate_hamming_distance [1, 1, 0] [0, 1, 1] \<and>
   calculate_hamming_distance [0, 1, 1] [1, 1, 0] \<noteq> Inr 0 \<and>
   calculate_hamming_distance [0, 1, 1] [0, 1, 1] = Inr 0"
  using calculate_hamming_distance_symmetric_zero [of "[0, 1, 1]" "[1, 1, 0]"]
    calculate_hamming_distance_symmetric_zero [of "[0, 1, 1]" "[0, 1, 1]"]
  by (simp add: calculate_hamming_distance_def)

section \<open>Loops and scans\<close>

lemma fold_err_pure:
  "(\<And>x s. x \<in> set xs \<Longrightarrow> f x s = Inr (g x s)) \<Longrightarrow> fold_err f xs s = Inr (fold g xs s)"
  by (induction xs arbitrary: s) auto

lemma fold_err_Inr:
  "fold_err f xs s = Inr s' \<Longrightarrow> (\<And>x s s'. x \<in> set xs \<Longrightarrow> f x s = Inr s' \<Longrightarrow> s' = g x s)
     \<Longrightarrow> s' = fold g xs s"
proof (induction xs arbitrary: s)
  case Nil
  then show ?case by simp
next
  case (Cons x xs)
  from Cons.prems(1) obtain s1 where s1: "f x s = Inr s1" and rest: "fold_err f xs s1 = Inr s'"
    by (auto split: sum.splits)
  have "s1 = g x s" using Cons.prems(2)[OF _ s1] by simp
  moreover have "s' = fold g xs s1"
    using Cons.IH[OF rest] Cons.prems(2) by simp
  ultimately show ?case by simp
qed

lemma fold_nested:
  "fold (\<lambda>i. fold (\<lambda>j. h (i, j)) (js i)) is s = fold h (concat (map (\<lambda>i. map (Pair i) (js i)) is)) s"
  by (induction "is" arbitrary: s) (auto simp: fold_map comp_def)

lemma first_min_scan:
  fixes f :: "'a \<Rightarrow> nat"
  shows "(fold (first_min_step f g) xs st = st \<and> (\<forall>x\<in>set xs. fst st \<le> f x)) \<or>
    (\<exists>ys x zs. xs = ys @ x # zs \<and> fold (first_min_step f g) xs st = (f x, Some (g x)) \<and>
       f x < fst st \<and> (\<forall>y\<in>set ys. f x < f y) \<and> (\<forall>z\<in>set zs. f x \<le> f z))"
  (is "?keep xs \<or> ?found xs")
proof (induction xs rule: rev_induct)
  case Nil
  then show ?case by simp
next
  case (snoc a xs)
  let ?r = "fold (first_min_step f g) xs st"
  have step: "fold (first_min_step f g) (xs @ [a]) st = first_min_step f g a ?r"
    by simp
  from snoc.IH show ?case
  proof
    assume "?keep xs"
    then have same: "?r = st" and ge: "\<forall>x\<in>set xs. fst st \<le> f x" by simp_all
    show ?thesis
    proof (cases "f a < fst st")
      case True
      have "first_min_step f g a ?r = (f a, Some (g a))"
        using True same by (simp add: first_min_step_def)
      moreover have "\<forall>y\<in>set xs. f a < f y" using ge True by fastforce
      ultimately have "xs @ [a] = xs @ a # [] \<and>
          fold (first_min_step f g) (xs @ [a]) st = (f a, Some (g a)) \<and>
          f a < fst st \<and> (\<forall>y\<in>set xs. f a < f y) \<and> (\<forall>z\<in>set []. f a \<le> f z)"
        using True step by simp
      then have "?found (xs @ [a])" by (intro exI)
      then show ?thesis ..
    next
      case False
      then have "first_min_step f g a ?r = st"
        using same by (simp add: first_min_step_def)
      then have "?keep (xs @ [a])" using ge False step by simp
      then show ?thesis ..
    qed
  next
    assume "?found xs"
    then obtain ys x zs where dec: "xs = ys @ x # zs" and r: "?r = (f x, Some (g x))"
      and lt: "f x < fst st"
      and before: "\<forall>y\<in>set ys. f x < f y" and after: "\<forall>z\<in>set zs. f x \<le> f z"
      by blast
    show ?thesis
    proof (cases "f a < f x")
      case True
      have "first_min_step f g a ?r = (f a, Some (g a))"
        using True r by (simp add: first_min_step_def)
      moreover have "\<forall>y\<in>set xs. f a < f y" using dec before after True by fastforce
      moreover have "f a < fst st" using True lt by simp
      ultimately have "xs @ [a] = xs @ a # [] \<and>
          fold (first_min_step f g) (xs @ [a]) st = (f a, Some (g a)) \<and>
          f a < fst st \<and> (\<forall>y\<in>set xs. f a < f y) \<and> (\<forall>z\<in>set []. f a \<le> f z)"
        using step by simp
      then have "?found (xs @ [a])" by (intro exI)
      then show ?thesis ..
    next
      case False
      have "first_min_step f g a ?r = (f x, Some (g x))"
        using False r by (simp add: first_min_step_def)
      moreover have "\<forall>z\<in>set (zs @ [a]). f x \<le> f z" using after False by auto
      ultimately have "xs @ [a] = ys @ x # (zs @ [a]) \<and>
          fold (first_min_step f g) (xs @ [a]) st = (f x, Some (g x)) \<and>
          f x < fst st \<and> (\<forall>y\<in>set ys. f x < f y) \<and> (\<forall>z\<in>set (zs @ [a]). f x \<le> f z)"
        using step dec lt before by simp
      then have "?found (xs @ [a])" by (intro exI)
      then show ?thesis ..
    qed
  qed
qed

section \<open>Exact Search: properties\<close>

lemma index_pairs_from: "index_pairs m = pairs_from 0 m"
  by (simp add: index_pairs_def pairs_from_def)

lemma pairs_from_unfold:
  "k < m \<Longrightarrow> pairs_from k m = map (Pair k) [k + 1 ..< m] @ pairs_from (Suc k) m"
  by (simp add: pairs_from_def upt_conv_Cons)

lemma set_pairs_from: "set (pairs_from k m) = {(i, j). k \<le> i \<and> i < j \<and> j < m}"
proof -
  have "(i, j) \<in> set (pairs_from k m) \<longleftrightarrow> k \<le> i \<and> i < j \<and> j < m" for i j
  proof
    assume "(i, j) \<in> set (pairs_from k m)"
    then show "k \<le> i \<and> i < j \<and> j < m" by (auto simp: pairs_from_def)
  next
    assume a: "k \<le> i \<and> i < j \<and> j < m"
    then have "\<exists>x\<in>{k..<m}. (i, j) \<in> Pair x ` {Suc x..<m}"
      by (intro bexI[of _ i]) auto
    then show "(i, j) \<in> set (pairs_from k m)"
      by (simp add: pairs_from_def)
  qed
  then show ?thesis by auto
qed

lemma set_index_pairs: "set (index_pairs m) = {(i, j). i < j \<and> j < m}"
  by (simp add: index_pairs_from set_pairs_from)

lemma sorted_row: "sorted_wrt lex_less (map (Pair k) [a ..< m])"
  by (simp add: sorted_wrt_map lex_less_def sorted_wrt_iff_nth_less)

lemma sorted_pairs_from: "sorted_wrt lex_less (pairs_from k m)"
proof (induction "m - k" arbitrary: k)
  case 0
  then show ?case by (simp add: pairs_from_def)
next
  case (Suc d)
  then have km: "k < m" and d: "d = m - Suc k" by simp_all
  have "sorted_wrt lex_less (pairs_from (Suc k) m)" using Suc.hyps(1)[OF d] .
  moreover have "\<forall>p\<in>set (map (Pair k) [k + 1 ..< m]). \<forall>q\<in>set (pairs_from (Suc k) m). lex_less p q"
    by (auto simp: set_pairs_from lex_less_def)
  ultimately show ?case
    unfolding pairs_from_unfold[OF km] sorted_wrt_append using sorted_row by blast
qed

lemma sorted_index_pairs: "sorted_wrt lex_less (index_pairs m)"
  by (simp add: index_pairs_from sorted_pairs_from)

lemma lex_less_asym: "lex_less p q \<Longrightarrow> \<not> lex_less q p"
  by (auto simp: lex_less_def)

lemma lex_less_irrefl: "\<not> lex_less p p"
  by (simp add: lex_less_def)

lemma sorted_split_before:
  assumes "sorted_wrt lex_less (ys @ x # zs)" and "q \<in> set (ys @ x # zs)" and "lex_less q x"
  shows "q \<in> set ys"
proof -
  have "\<forall>z\<in>set zs. lex_less x z" using assms(1) by (simp add: sorted_wrt_append)
  then have "q \<notin> set zs" using assms(3) lex_less_asym by blast
  moreover have "q \<noteq> x" using assms(3) lex_less_irrefl by blast
  ultimately show ?thesis using assms(2) by auto
qed

lemma exact_step_pure:
  assumes "length (vs ! i) = length (vs ! j)"
  shows "exact_step vs i j st = Inr (first_min_step (ham_at vs) (pair_at vs) (i, j) st)"
  using calculate_hamming_distance_eq[OF assms]
  by (simp add: exact_step_def first_min_step_def ham_at_def pair_at_def)

lemma exact_step_Inr:
  assumes "exact_step vs i j st = Inr st'"
  shows "st' = first_min_step (ham_at vs) (pair_at vs) (i, j) st"
proof -
  from assms obtain d where "calculate_hamming_distance (vs ! i) (vs ! j) = Inr d"
    by (auto simp: exact_step_def split: sum.splits)
  then have "length (vs ! i) = length (vs ! j)" using calculate_hamming_distance_Inr by blast
  from exact_step_pure[OF this] assms show ?thesis by simp
qed

lemma fold_index_pairs:
  "fold (\<lambda>i. fold (\<lambda>j. h (i, j)) [i + 1 ..< m]) [0 ..< m] s = fold h (index_pairs m) s"
  unfolding index_pairs_def by (rule fold_nested)

lemma exact_unfold:
  "vs \<noteq> [] \<Longrightarrow> find_min_hamming_distance vs =
     fold_err (\<lambda>i. fold_err (\<lambda>j. exact_step vs i j) [i + 1 ..< length vs])
            [0 ..< length vs] (length (hd vs) + 1, None)"
  by (cases vs) (simp_all add: find_min_hamming_distance_def)

lemma exact_Inr:
  assumes "find_min_hamming_distance vs = Inr r"
  shows "vs \<noteq> [] \<and> r = fold (first_min_step (ham_at vs) (pair_at vs)) (index_pairs (length vs))
           (length (hd vs) + 1, None)"
proof -
  from assms have ne: "vs \<noteq> []"
    by (cases vs) (auto simp: find_min_hamming_distance_def)
  let ?h = "first_min_step (ham_at vs) (pair_at vs)"
  have run: "fold_err (\<lambda>i. fold_err (\<lambda>j. exact_step vs i j) [i + 1 ..< length vs])
            [0 ..< length vs] (length (hd vs) + 1, None) = Inr r"
    using assms exact_unfold[OF ne] by simp
  have inner: "s' = fold (\<lambda>j. ?h (i, j)) [i + 1 ..< length vs] s"
    if "fold_err (\<lambda>j. exact_step vs i j) [i + 1 ..< length vs] s = Inr s'" for i s s'
    using that by (rule fold_err_Inr) (rule exact_step_Inr)
  have "r = fold (\<lambda>i. fold (\<lambda>j. ?h (i, j)) [i + 1 ..< length vs]) [0 ..< length vs]
              (length (hd vs) + 1, None)"
    using run by (rule fold_err_Inr) (rule inner)
  then have "r = fold ?h (index_pairs (length vs)) (length (hd vs) + 1, None)"
    by (simp only: fold_index_pairs)
  with ne show ?thesis by simp
qed

lemma exact_total:
  assumes "vs \<noteq> []" and "\<forall>v\<in>set vs. length v = n"
  shows "find_min_hamming_distance vs =
     Inr (fold (first_min_step (ham_at vs) (pair_at vs)) (index_pairs (length vs)) (n + 1, None))"
proof -
  let ?h = "first_min_step (ham_at vs) (pair_at vs)"
  have len: "length (vs ! i) = length (vs ! j)" if "i < length vs" "j < length vs" for i j
    using that assms(2) by simp
  have inner: "fold_err (\<lambda>j. exact_step vs i j) [i + 1 ..< length vs] s
      = Inr (fold (\<lambda>j. ?h (i, j)) [i + 1 ..< length vs] s)" if "i \<in> set [0 ..< length vs]" for i s
    using that by (intro fold_err_pure exact_step_pure len) auto
  have "fold_err (\<lambda>i. fold_err (\<lambda>j. exact_step vs i j) [i + 1 ..< length vs])
            [0 ..< length vs] (length (hd vs) + 1, None)
      = Inr (fold (\<lambda>i. fold (\<lambda>j. ?h (i, j)) [i + 1 ..< length vs]) [0 ..< length vs]
               (length (hd vs) + 1, None))"
    by (rule fold_err_pure) (rule inner)
  then have "find_min_hamming_distance vs =
      Inr (fold ?h (index_pairs (length vs)) (length (hd vs) + 1, None))"
    by (simp only: fold_index_pairs exact_unfold[OF assms(1)])
  moreover have "length (hd vs) = n" using assms by simp
  ultimately show ?thesis by simp
qed

text \<open>
  C9: on a collection of exactly one vector of length \<open>n\<close>, Exact Search returns the
  sentinel, distance \<open>n + 1\<close> and no pair, and raises nothing.
\<close>
theorem find_min_hamming_distance_single:
  "find_min_hamming_distance [v] = Inr (length v + 1, None)"
  by (simp add: find_min_hamming_distance_def)

theorem find_min_hamming_distance_single_witness:
  "find_min_hamming_distance [[0, 1, 1, 0]] = Inr (5, None)"
  using find_min_hamming_distance_single [of "[0, 1, 1, 0]"] by simp

text \<open>
  C2: on a collection of at least two vectors of equal length, Exact Search returns a
  pair of vectors at two positions \<open>i < j\<close> of the collection together with their
  Hamming distance; no pair of positions has a smaller distance, and every pair that the
  loops visit earlier (smaller outer index, or the same outer index and a smaller inner
  index) has a strictly larger distance.
\<close>
theorem find_min_hamming_distance_first_minimal:
  assumes "2 \<le> length vs" and "\<forall>v\<in>set vs. length v = n"
  shows "\<exists>i j d. i < j \<and> j < length vs \<and>
           find_min_hamming_distance vs = Inr (d, Some (vs ! i, vs ! j)) \<and>
           calculate_hamming_distance (vs ! i) (vs ! j) = Inr d \<and>
           (\<forall>i' j'. i' < j' \<and> j' < length vs \<longrightarrow>
              (\<exists>d'. calculate_hamming_distance (vs ! i') (vs ! j') = Inr d' \<and> d \<le> d' \<and>
                    (i' < i \<or> (i' = i \<and> j' < j) \<longrightarrow> d < d')))"
proof -
  let ?f = "ham_at vs" and ?g = "pair_at vs" and ?ps = "index_pairs (length vs)"
  let ?r = "fold (first_min_step ?f ?g) ?ps (n + 1, None)"
  have ne: "vs \<noteq> []" using assms(1) by auto
  have res: "find_min_hamming_distance vs = Inr ?r"
    using exact_total[OF ne assms(2)] .
  have calc: "calculate_hamming_distance (vs ! i) (vs ! j) = Inr (?f (i, j))"
    if "i < length vs" "j < length vs" for i j
    using that assms(2) by (simp add: calculate_hamming_distance_eq ham_at_def)
  have first: "(0, 1) \<in> set ?ps" using assms(1) by (simp add: set_index_pairs)
  have "0 < length vs" using assms(1) by linarith
  then have "vs ! 0 \<in> set vs" by (rule nth_mem)
  then have "length (vs ! 0) = n" using assms(2) by blast
  then have "?f (0, 1) \<le> n" using hamming_le[of "vs ! 0" "vs ! 1"] by (simp add: ham_at_def)
  then have small: "\<not> n + 1 \<le> ?f (0, 1)" by simp
  have nokeep: "\<not> (\<forall>x\<in>set ?ps. fst (n + 1, None :: pair option) \<le> ?f x)"
  proof
    assume "\<forall>x\<in>set ?ps. fst (n + 1, None :: pair option) \<le> ?f x"
    then have "fst (n + 1, None :: pair option) \<le> ?f (0, 1)" using first by (rule bspec)
    then show False using small by simp
  qed
  from first_min_scan[of ?f ?g ?ps "(n + 1, None)"] nokeep
  have "\<exists>ys x zs. ?ps = ys @ x # zs \<and> ?r = (?f x, Some (?g x)) \<and>
       ?f x < fst (n + 1, None :: pair option) \<and> (\<forall>y\<in>set ys. ?f x < ?f y) \<and> (\<forall>z\<in>set zs. ?f x \<le> ?f z)"
    by (elim disjE) (simp_all only: simp_thms)
  then obtain ys x zs where dec: "?ps = ys @ x # zs" and r: "?r = (?f x, Some (?g x))"
    and before: "\<forall>y\<in>set ys. ?f x < ?f y" and after: "\<forall>z\<in>set zs. ?f x \<le> ?f z"
    by (elim exE conjE)
  obtain i j where x: "x = (i, j)" by (cases x)
  have "x \<in> set ?ps" using dec by simp
  then have ij: "i < j" "j < length vs" using x by (simp_all add: set_index_pairs)
  have others: "\<exists>d'. calculate_hamming_distance (vs ! i') (vs ! j') = Inr d' \<and> ?f x \<le> d' \<and>
                    (i' < i \<or> (i' = i \<and> j' < j) \<longrightarrow> ?f x < d')"
    if q: "i' < j' \<and> j' < length vs" for i' j'
  proof -
    have "(i', j') \<in> set ?ps" using q by (simp add: set_index_pairs)
    then have mem: "(i', j') \<in> set (ys @ x # zs)" using dec by simp
    then consider "(i', j') \<in> set ys" | "(i', j') = x" | "(i', j') \<in> set zs" by auto
    then have le: "?f x \<le> ?f (i', j')"
    proof cases
      case 1 then show ?thesis using before by (simp add: less_imp_le)
    next
      case 2 then show ?thesis by simp
    next
      case 3 then show ?thesis using after by simp
    qed
    have lt: "?f x < ?f (i', j')" if "i' < i \<or> (i' = i \<and> j' < j)"
    proof -
      have l: "lex_less (i', j') x" using that x by (simp add: lex_less_def)
      have srt: "sorted_wrt lex_less (ys @ x # zs)"
        using sorted_index_pairs[of "length vs"] dec by simp
      have "(i', j') \<in> set ys" using sorted_split_before[OF srt mem l] .
      then show ?thesis using before by simp
    qed
    have "calculate_hamming_distance (vs ! i') (vs ! j') = Inr (?f (i', j'))"
      using calc[of i' j'] q by simp
    with le lt show ?thesis by (intro exI[of _ "?f (i', j')"]) simp
  qed
  have "find_min_hamming_distance vs = Inr (?f x, Some (vs ! i, vs ! j))"
    using res r x by (simp add: pair_at_def)
  moreover have "calculate_hamming_distance (vs ! i) (vs ! j) = Inr (?f x)"
    using calc[of i j] ij x by simp
  ultimately show ?thesis using ij others
    by (intro exI[of _ i] exI[of _ j] exI[of _ "?f x"]) simp
qed

theorem find_min_hamming_distance_first_minimal_witness:
  "2 \<le> length [[0, 0, 0, 0], [0, 0, 0, 1], [1, 1, 1, 1 :: int]] \<and>
   list_all (\<lambda>v. length v = 4) [[0, 0, 0, 0], [0, 0, 0, 1], [1, 1, 1, 1 :: int]] \<and>
   find_min_hamming_distance [[0, 0, 0, 0], [0, 0, 0, 1], [1, 1, 1, 1]]
     = Inr (1, Some ([0, 0, 0, 0], [0, 0, 0, 1])) \<and>
   (\<exists>i j d. i < j \<and> j < 3 \<and>
      find_min_hamming_distance [[0, 0, 0, 0], [0, 0, 0, 1], [1, 1, 1, 1]]
        = Inr (d, Some ([[0, 0, 0, 0], [0, 0, 0, 1], [1, 1, 1, 1]] ! i,
                        [[0, 0, 0, 0], [0, 0, 0, 1], [1, 1, 1, 1]] ! j)))"
proof -
  let ?vs = "[[0, 0, 0, 0], [0, 0, 0, 1], [1, 1, 1, 1 :: int]]"
  have h1: "2 \<le> length ?vs" by simp
  have h2: "\<forall>v\<in>set ?vs. length v = 4" by simp
  have ev: "find_min_hamming_distance ?vs = Inr (1, Some ([0, 0, 0, 0], [0, 0, 0, 1]))"
    by code_simp
  from find_min_hamming_distance_first_minimal [OF h1 h2]
  obtain i j d where "i < j" "j < length ?vs"
    "find_min_hamming_distance ?vs = Inr (d, Some (?vs ! i, ?vs ! j))" by blast
  then have "\<exists>i j d. i < j \<and> j < 3 \<and>
      find_min_hamming_distance ?vs = Inr (d, Some (?vs ! i, ?vs ! j))"
    by (intro exI[of _ i] exI[of _ j] exI[of _ d]) simp
  moreover have "list_all (\<lambda>v. length v = 4) ?vs" by simp
  ultimately show ?thesis using h1 ev by (intro conjI)
qed

section \<open>Group-Filtered Search: properties\<close>

lemma all_match_pure:
  "list_all (\<lambda>k. k < length u \<and> k < length v) idxs \<Longrightarrow>
   all_match u v idxs = Inr (list_all (\<lambda>k. u ! k = v ! k) idxs)"
  by (induction idxs) auto

lemma all_match_Inr:
  "all_match u v idxs = Inr b \<Longrightarrow> b = list_all (\<lambda>k. u ! k = v ! k) idxs"
  by (induction idxs) (auto split: if_splits)

lemma group_step_Inr:
  assumes "group_step vs idxs i j st = Inr st'"
  shows "st' = logged_step vs idxs (i, j) st"
proof -
  from assms obtain b where b: "all_match (vs ! i) (vs ! j) idxs = Inr b"
    by (auto simp: group_step_def split: sum.splits)
  then have ag: "b = agree_at vs idxs (i, j)"
    using all_match_Inr by (simp add: agree_at_def)
  show ?thesis
  proof (cases b)
    case False
    then show ?thesis using assms b ag by (simp add: group_step_def logged_step_def)
  next
    case True
    with assms b obtain d where d: "calculate_hamming_distance (vs ! i) (vs ! j) = Inr d"
      by (auto simp: group_step_def split: sum.splits)
    then have "d = hamming (vs ! i) (vs ! j)" using calculate_hamming_distance_Inr by blast
    then show ?thesis
      using assms b d True ag
      by (auto simp: group_step_def logged_step_def first_min_step_def ham_at_def pair_at_def)
  qed
qed

lemma group_step_pure:
  assumes "length (vs ! i) = n" and "length (vs ! j) = n" and "list_all (\<lambda>k. k < n) idxs"
  shows "group_step vs idxs i j st = Inr (logged_step vs idxs (i, j) st)"
proof -
  have "all_match (vs ! i) (vs ! j) idxs = Inr (agree_at vs idxs (i, j))"
    using assms by (simp add: all_match_pure agree_at_def)
  moreover have "calculate_hamming_distance (vs ! i) (vs ! j) = Inr (hamming (vs ! i) (vs ! j))"
    using assms by (simp add: calculate_hamming_distance_eq)
  ultimately show ?thesis
    by (simp add: group_step_def logged_step_def first_min_step_def ham_at_def pair_at_def)
qed

lemma fold_logged_step:
  "fold (logged_step vs idxs) ps (r, calls) =
     (fold (first_min_step (ham_at vs) (pair_at vs)) (filter (agree_at vs idxs) ps) r,
      calls @ filter (agree_at vs idxs) ps)"
  by (induction ps arbitrary: r calls) (simp_all add: logged_step_def)

lemma group_unfold:
  "vs \<noteq> [] \<Longrightarrow> find_min_hamming_distance_in_group_logged vs idxs =
     fold_err (\<lambda>i. fold_err (\<lambda>j. group_step vs idxs i j) [i + 1 ..< length vs])
            [0 ..< length vs] ((length (hd vs) + 1, None), [])"
  by (cases vs) (simp_all add: find_min_hamming_distance_in_group_logged_def)

lemma group_logged_Inr:
  assumes "find_min_hamming_distance_in_group_logged vs idxs = Inr r"
  shows "vs \<noteq> [] \<and> r =
     (fold (first_min_step (ham_at vs) (pair_at vs))
        (filter (agree_at vs idxs) (index_pairs (length vs))) (length (hd vs) + 1, None),
      filter (agree_at vs idxs) (index_pairs (length vs)))"
proof -
  from assms have ne: "vs \<noteq> []"
    by (cases vs) (auto simp: find_min_hamming_distance_in_group_logged_def)
  let ?h = "logged_step vs idxs"
  let ?s0 = "((length (hd vs) + 1, None), []) :: result \<times> (nat \<times> nat) list"
  have run: "fold_err (\<lambda>i. fold_err (\<lambda>j. group_step vs idxs i j) [i + 1 ..< length vs])
            [0 ..< length vs] ?s0 = Inr r"
    using assms group_unfold[OF ne] by simp
  have inner: "s' = fold (\<lambda>j. ?h (i, j)) [i + 1 ..< length vs] s"
    if "fold_err (\<lambda>j. group_step vs idxs i j) [i + 1 ..< length vs] s = Inr s'" for i s s'
    using that by (rule fold_err_Inr) (rule group_step_Inr)
  have "r = fold (\<lambda>i. fold (\<lambda>j. ?h (i, j)) [i + 1 ..< length vs]) [0 ..< length vs] ?s0"
    using run by (rule fold_err_Inr) (rule inner)
  then have "r = fold ?h (index_pairs (length vs)) ?s0"
    by (simp only: fold_index_pairs)
  with ne show ?thesis by (simp add: fold_logged_step)
qed

lemma group_logged_total:
  assumes "vs \<noteq> []" and "\<forall>v\<in>set vs. length v = n" and "list_all (\<lambda>k. k < n) idxs"
  shows "find_min_hamming_distance_in_group_logged vs idxs = Inr
     (fold (first_min_step (ham_at vs) (pair_at vs))
        (filter (agree_at vs idxs) (index_pairs (length vs))) (n + 1, None),
      filter (agree_at vs idxs) (index_pairs (length vs)))"
proof -
  let ?h = "logged_step vs idxs"
  let ?s0 = "((length (hd vs) + 1, None), []) :: result \<times> (nat \<times> nat) list"
  have len: "length (vs ! i) = n" if "i < length vs" for i
    using that assms(2) by simp
  have inner: "fold_err (\<lambda>j. group_step vs idxs i j) [i + 1 ..< length vs] s
      = Inr (fold (\<lambda>j. ?h (i, j)) [i + 1 ..< length vs] s)" if "i \<in> set [0 ..< length vs]" for i s
  proof (rule fold_err_pure)
    fix j s assume "j \<in> set [i + 1 ..< length vs]"
    then show "group_step vs idxs i j s = Inr (?h (i, j) s)"
      using that by (intro group_step_pure[where n=n] len assms(3)) auto
  qed
  have "fold_err (\<lambda>i. fold_err (\<lambda>j. group_step vs idxs i j) [i + 1 ..< length vs])
            [0 ..< length vs] ?s0
      = Inr (fold (\<lambda>i. fold (\<lambda>j. ?h (i, j)) [i + 1 ..< length vs]) [0 ..< length vs] ?s0)"
    by (rule fold_err_pure) (rule inner)
  then have "find_min_hamming_distance_in_group_logged vs idxs =
      Inr (fold ?h (index_pairs (length vs)) ?s0)"
    by (simp only: fold_index_pairs group_unfold[OF assms(1)])
  moreover have "length (hd vs) = n" using assms by simp
  ultimately show ?thesis by (simp add: fold_logged_step)
qed

lemma scan_sentinel:
  fixes f :: "'a \<Rightarrow> nat"
  assumes "\<forall>x\<in>set xs. f x \<le> n"
  shows "(xs = [] \<and> fold (first_min_step f g) xs (n + 1, None) = (n + 1, None)) \<or>
         (\<exists>x\<in>set xs. fold (first_min_step f g) xs (n + 1, None) = (f x, Some (g x)) \<and>
             (\<forall>y\<in>set xs. f x \<le> f y))"
proof (cases xs)
  case Nil
  then show ?thesis by simp
next
  case (Cons a as)
  let ?st = "(n + 1, None) :: nat \<times> 'b option"
  have "\<not> (\<forall>x\<in>set xs. fst ?st \<le> f x)"
  proof
    assume "\<forall>x\<in>set xs. fst ?st \<le> f x"
    then have "n + 1 \<le> f a" using Cons by simp
    moreover have "f a \<le> n" using assms Cons by simp
    ultimately show False by simp
  qed
  with first_min_scan[of f g xs ?st]
  have "\<exists>ys x zs. xs = ys @ x # zs \<and> fold (first_min_step f g) xs ?st = (f x, Some (g x)) \<and>
       f x < fst ?st \<and> (\<forall>y\<in>set ys. f x < f y) \<and> (\<forall>z\<in>set zs. f x \<le> f z)"
    by (elim disjE) (simp_all only: simp_thms)
  then obtain ys x zs where dec: "xs = ys @ x # zs"
    and r: "fold (first_min_step f g) xs ?st = (f x, Some (g x))"
    and before: "\<forall>y\<in>set ys. f x < f y" and after: "\<forall>z\<in>set zs. f x \<le> f z"
    by (elim exE conjE)
  have "x \<in> set xs" using dec by simp
  moreover have "\<forall>y\<in>set xs. f x \<le> f y"
  proof
    fix y assume "y \<in> set xs"
    then consider "y \<in> set ys" | "y = x" | "y \<in> set zs" using dec by auto
    then show "f x \<le> f y"
    proof cases
      case 1 then show ?thesis using before by (simp add: less_imp_le)
    next
      case 2 then show ?thesis by simp
    next
      case 3 then show ?thesis using after by simp
    qed
  qed
  ultimately show ?thesis using r by blast
qed

lemma ham_at_le:
  assumes "\<forall>v\<in>set vs. length v = n" and "fst p < length vs"
  shows "ham_at vs p \<le> n"
proof -
  have "vs ! fst p \<in> set vs" using assms(2) by (rule nth_mem)
  then have "length (vs ! fst p) = n" using assms(1) by blast
  then show ?thesis using hamming_le[of "vs ! fst p" "vs ! snd p"] by (simp add: ham_at_def)
qed

lemma set_qualifying:
  "set (filter (agree_at vs idxs) (index_pairs m)) =
     {(i, j). i < j \<and> j < m \<and> (\<forall>k\<in>set idxs. vs ! i ! k = vs ! j ! k)}"
  by (auto simp: set_index_pairs agree_at_def list_all_iff)

text \<open>
  C5: on a non-empty group of vectors of length \<open>n\<close> and a sample of positions below
  \<open>n\<close>, Group-Filtered Search calls the Distance Metric for exactly the pairs
  \<open>i < j\<close> that agree at all the positions of the sample, hence only for such pairs.
  When there is no such pair it returns the sentinel, distance \<open>n + 1\<close> and no pair;
  otherwise it returns one of these pairs with its Hamming distance, and no qualifying
  pair has a smaller distance.
\<close>

theorem find_min_hamming_distance_in_group_spec:
  assumes "vs \<noteq> []" and "\<forall>v\<in>set vs. length v = n" and "\<forall>k\<in>set idxs. k < n"
  shows "\<exists>res calls.
     find_min_hamming_distance_in_group_logged vs idxs = Inr (res, calls) \<and>
     find_min_hamming_distance_in_group vs idxs = Inr res \<and>
     set calls = {(i, j). i < j \<and> j < length vs \<and> (\<forall>k\<in>set idxs. vs ! i ! k = vs ! j ! k)} \<and>
     (calls = [] \<longrightarrow> res = (n + 1, None)) \<and>
     (calls \<noteq> [] \<longrightarrow>
        (\<exists>i j. (i, j) \<in> set calls \<and>
           res = (hamming (vs ! i) (vs ! j), Some (vs ! i, vs ! j)) \<and>
           calculate_hamming_distance (vs ! i) (vs ! j) = Inr (hamming (vs ! i) (vs ! j)) \<and>
           (\<forall>(i', j')\<in>set calls. hamming (vs ! i) (vs ! j) \<le> hamming (vs ! i') (vs ! j'))))"
proof -
  let ?f = "ham_at vs" and ?g = "pair_at vs"
  let ?calls = "filter (agree_at vs idxs) (index_pairs (length vs))"
  let ?res = "fold (first_min_step ?f ?g) ?calls (n + 1, None)"
  have idx: "list_all (\<lambda>k. k < n) idxs" using assms(3) by (simp add: list_all_iff)
  have logged: "find_min_hamming_distance_in_group_logged vs idxs = Inr (?res, ?calls)"
    using group_logged_total[OF assms(1,2) idx] .
  then have plain: "find_min_hamming_distance_in_group vs idxs = Inr ?res"
    by (simp add: find_min_hamming_distance_in_group_def)
  have calls: "set ?calls =
      {(i, j). i < j \<and> j < length vs \<and> (\<forall>k\<in>set idxs. vs ! i ! k = vs ! j ! k)}"
    by (rule set_qualifying)
  have bound: "\<forall>x\<in>set ?calls. ?f x \<le> n"
  proof
    fix x assume "x \<in> set ?calls"
    then have "x \<in> set (index_pairs (length vs))" by simp
    then have "fst x < length vs" by (auto simp: set_index_pairs)
    then show "?f x \<le> n" using ham_at_le[OF assms(2)] by blast
  qed
  have none: "?calls = [] \<longrightarrow> ?res = (n + 1, None)" by simp
  have some: "?calls \<noteq> [] \<longrightarrow>
        (\<exists>i j. (i, j) \<in> set ?calls \<and>
           ?res = (hamming (vs ! i) (vs ! j), Some (vs ! i, vs ! j)) \<and>
           calculate_hamming_distance (vs ! i) (vs ! j) = Inr (hamming (vs ! i) (vs ! j)) \<and>
           (\<forall>(i', j')\<in>set ?calls. hamming (vs ! i) (vs ! j) \<le> hamming (vs ! i') (vs ! j')))"
  proof
    assume ne: "?calls \<noteq> []"
    with scan_sentinel[OF bound, of ?g]
    obtain x where x: "x \<in> set ?calls" and r: "?res = (?f x, Some (?g x))"
      and least: "\<forall>y\<in>set ?calls. ?f x \<le> ?f y"
      by blast
    obtain i j where ij: "x = (i, j)" by (cases x)
    have "(i, j) \<in> set (index_pairs (length vs))" using x ij by simp
    then have lt: "i < length vs" "j < length vs" by (auto simp: set_index_pairs)
    then have "length (vs ! i) = length (vs ! j)" using assms(2) by simp
    then have c: "calculate_hamming_distance (vs ! i) (vs ! j) = Inr (hamming (vs ! i) (vs ! j))"
      by (rule calculate_hamming_distance_eq)
    have "\<forall>(i', j')\<in>set ?calls. hamming (vs ! i) (vs ! j) \<le> hamming (vs ! i') (vs ! j')"
      using least ij by (auto simp: ham_at_def)
    moreover have "?res = (hamming (vs ! i) (vs ! j), Some (vs ! i, vs ! j))"
      using r ij by (simp add: ham_at_def pair_at_def)
    moreover have "(i, j) \<in> set ?calls" using x ij by simp
    ultimately show "\<exists>i j. (i, j) \<in> set ?calls \<and>
           ?res = (hamming (vs ! i) (vs ! j), Some (vs ! i, vs ! j)) \<and>
           calculate_hamming_distance (vs ! i) (vs ! j) = Inr (hamming (vs ! i) (vs ! j)) \<and>
           (\<forall>(i', j')\<in>set ?calls. hamming (vs ! i) (vs ! j) \<le> hamming (vs ! i') (vs ! j'))"
      using c by blast
  qed
  from logged plain calls none some show ?thesis
    by (intro exI[of _ ?res] exI[of _ ?calls] conjI)
qed

theorem find_min_hamming_distance_in_group_spec_witness:
  "[[0, 0, 0, 0], [0, 0, 0, 1], [1, 1, 1, 1], [1, 1, 1, 0 :: int]] \<noteq> [] \<and>
   list_all (\<lambda>v. length v = 4) [[0, 0, 0, 0], [0, 0, 0, 1], [1, 1, 1, 1], [1, 1, 1, 0 :: int]] \<and>
   list_all (\<lambda>k. k < 4) [0 :: nat] \<and>
   find_min_hamming_distance_in_group_logged
       [[0, 0, 0, 0], [0, 0, 0, 1], [1, 1, 1, 1], [1, 1, 1, 0]] [0]
     = Inr ((1, Some ([0, 0, 0, 0], [0, 0, 0, 1])), [(0, 1), (2, 3)]) \<and>
   find_min_hamming_distance_in_group [[0, 0, 0, 0], [0, 0, 0, 1], [1, 1, 1, 1], [1, 1, 1, 0]] [0]
     = Inr (1, Some ([0, 0, 0, 0], [0, 0, 0, 1])) \<and>
   find_min_hamming_distance_in_group [[0, 0, 0, 0], [1, 1, 1, 1]] [0] = Inr (5, None)"
proof -
  let ?vs = "[[0, 0, 0, 0], [0, 0, 0, 1], [1, 1, 1, 1], [1, 1, 1, 0 :: int]]"
  have h1: "?vs \<noteq> []" by simp
  have h2: "\<forall>v\<in>set ?vs. length v = 4" by simp
  have h3: "\<forall>k\<in>set [0 :: nat]. k < 4" by simp
  have ev: "find_min_hamming_distance_in_group_logged ?vs [0]
     = Inr ((1, Some ([0, 0, 0, 0], [0, 0, 0, 1])), [(0, 1), (2, 3)])"
    by code_simp
  from find_min_hamming_distance_in_group_spec [OF h1 h2 h3]
  obtain res calls where
    "find_min_hamming_distance_in_group_logged ?vs [0] = Inr (res, calls)"
    "find_min_hamming_distance_in_group ?vs [0] = Inr res"
    by blast
  with ev have plain: "find_min_hamming_distance_in_group ?vs [0]
     = Inr (1, Some ([0, 0, 0, 0], [0, 0, 0, 1]))" by simp
  have g1: "[[0, 0, 0, 0], [1, 1, 1, 1 :: int]] \<noteq> []" by simp
  have g2: "\<forall>v\<in>set [[0, 0, 0, 0], [1, 1, 1, 1 :: int]]. length v = 4" by simp
  have ev': "find_min_hamming_distance_in_group_logged [[0, 0, 0, 0], [1, 1, 1, 1]] [0]
     = Inr ((5, None), [])"
    by code_simp
  from find_min_hamming_distance_in_group_spec [OF g1 g2 h3]
  obtain res' calls' where
    "find_min_hamming_distance_in_group_logged [[0, 0, 0, 0], [1, 1, 1, 1]] [0] = Inr (res', calls')"
    "find_min_hamming_distance_in_group [[0, 0, 0, 0], [1, 1, 1, 1]] [0] = Inr res'"
    by blast
  with ev' have empty:
    "find_min_hamming_distance_in_group [[0, 0, 0, 0], [1, 1, 1, 1]] [0] = Inr (5, None)"
    by simp
  have "list_all (\<lambda>v. length v = 4) ?vs" by simp
  moreover have "list_all (\<lambda>k. k < 4) [0 :: nat]" by simp
  ultimately show ?thesis using h1 ev plain empty by (intro conjI)
qed

section \<open>Bucketizer: properties\<close>

lemma key_of_pure:
  "list_all (\<lambda>i. i < length v) idxs \<Longrightarrow> key_of v idxs = Inr (key_at idxs v)"
  by (induction idxs) (auto simp: key_at_def)

lemma key_of_Inr: "key_of v idxs = Inr k \<Longrightarrow> k = key_at idxs v"
  by (induction idxs arbitrary: k) (auto simp: key_at_def split: if_splits sum.splits)

lemma classify_step_Inr:
  "classify_step idxs v al = Inr al' \<Longrightarrow> al' = dict_append (key_at idxs v) v al"
  by (auto simp: classify_step_def split: sum.splits dest: key_of_Inr)

lemma classify_step_pure:
  "list_all (\<lambda>i. i < length v) idxs \<Longrightarrow>
   classify_step idxs v al = Inr (dict_append (key_at idxs v) v al)"
  by (simp add: classify_step_def key_of_pure)

lemma classify_Inr:
  assumes "classify_vectors_by_random_bits drawn vs k = Inr groups"
  shows "groups = map snd (group_by (key_at drawn) vs [])"
proof (cases vs)
  case Nil
  then show ?thesis using assms by (simp add: classify_vectors_by_random_bits_def group_by_def)
next
  case (Cons v0 rest)
  from assms Cons obtain al where
    run: "fold_err (classify_step drawn) vs [] = Inr al" and g: "groups = map snd al"
    by (auto simp: classify_vectors_by_random_bits_def random_choice_def
             split: sum.splits if_splits)
  have "al = fold (\<lambda>v. dict_append (key_at drawn v) v) vs []"
    using run by (rule fold_err_Inr) (rule classify_step_Inr)
  then show ?thesis using g by (simp add: group_by_def)
qed

lemma sample_length:
  assumes "bit_position_sample drawn n k"
  shows "0 \<le> k \<and> k \<le> int n"
proof -
  from assms have len: "int (length drawn) = k" and d: "distinct drawn"
    and lt: "set drawn \<subseteq> {..<n}"
    by (auto simp: bit_position_sample_def list_all_iff)
  have "card (set drawn) \<le> card {..<n}" using lt by (intro card_mono) auto
  then have "length drawn \<le> n" using d by (simp add: distinct_card)
  then show ?thesis using len by auto
qed

lemma classify_total:
  assumes "\<forall>v\<in>set vs. length v = n" and "bit_position_sample drawn n k"
  shows "classify_vectors_by_random_bits drawn vs k = Inr (map snd (group_by (key_at drawn) vs []))"
proof (cases vs)
  case Nil
  then show ?thesis by (simp add: classify_vectors_by_random_bits_def group_by_def)
next
  case (Cons v0 rest)
  then have n: "length v0 = n" using assms(1) by simp
  have ch: "random_choice drawn (length v0) k = Inr drawn"
    using sample_length[OF assms(2)] n by (simp add: random_choice_def)
  have idx: "list_all (\<lambda>i. i < length v) drawn" if "v \<in> set vs" for v
    using assms that by (auto simp: bit_position_sample_def list_all_iff)
  have "fold_err (classify_step drawn) vs [] = Inr (fold (\<lambda>v. dict_append (key_at drawn v) v) vs [])"
    by (rule fold_err_pure) (simp add: classify_step_pure idx)
  then have "(case vs of [] \<Rightarrow> Inr [] | v0 # x \<Rightarrow>
          (case random_choice drawn (length v0) k of Inl e \<Rightarrow> Inl e
           | Inr indices \<Rightarrow>
               (case fold_err (classify_step indices) vs [] of Inl e \<Rightarrow> Inl e
                | Inr groups \<Rightarrow> Inr (map snd groups))))
        = Inr (map snd (group_by (key_at drawn) vs []))"
    using ch unfolding Cons by (simp add: group_by_def)
  then show ?thesis by (simp only: classify_vectors_by_random_bits_def)
qed

lemma map_of_dict_append:
  "map_of (dict_append k v al) =
     (map_of al)(k \<mapsto> (case map_of al k of None \<Rightarrow> [v] | Some g \<Rightarrow> g @ [v]))"
  by (induction al) (auto simp: fun_eq_iff)

lemma keys_dict_append:
  "map fst (dict_append k v al) = (if k \<in> fst ` set al then map fst al else map fst al @ [k])"
proof (induction al)
  case Nil
  then show ?case by simp
next
  case (Cons a al)
  obtain k' g where a: "a = (k', g)" by (cases a)
  show ?case
  proof (cases "k' = k")
    case True
    then show ?thesis using a by simp
  next
    case False
    then have "k \<in> fst ` set (a # al) \<longleftrightarrow> k \<in> fst ` set al" using a by auto
    then show ?thesis using Cons.IH False a by simp
  qed
qed

lemma distinct_dict_append:
  "distinct (map fst al) \<Longrightarrow> distinct (map fst (dict_append k v al))"
  by (simp add: keys_dict_append)

lemma mset_dict_append:
  "mset (concat (map snd (dict_append k v al))) = add_mset v (mset (concat (map snd al)))"
  by (induction al) auto

lemma mset_group_by:
  "mset (concat (map snd (group_by K xs al))) = mset xs + mset (concat (map snd al))"
  by (induction xs arbitrary: al) (simp_all add: group_by_def mset_dict_append)

lemma group_by_snoc: "group_by K (xs @ [a]) al = dict_append (K a) a (group_by K xs al)"
  by (simp add: group_by_def)

lemma group_by_inv:
  "distinct (map fst (group_by K xs [])) \<and>
   (\<forall>k. map_of (group_by K xs []) k =
      (if k \<in> K ` set xs then Some (filter (\<lambda>v. K v = k) xs) else None))"
proof (induction xs rule: rev_induct)
  case Nil
  then show ?case by (simp add: group_by_def)
next
  case (snoc a xs)
  let ?G = "group_by K xs []"
  from snoc have d: "distinct (map fst ?G)"
    and m: "\<And>k. map_of ?G k = (if k \<in> K ` set xs then Some (filter (\<lambda>v. K v = k) xs) else None)"
    by simp_all
  have none: "filter (\<lambda>v. K v = k) xs = []" if "k \<notin> K ` set xs" for k
    using that by (auto simp: filter_empty_conv)
  have "map_of (group_by K (xs @ [a]) []) k =
      (if k \<in> K ` set (xs @ [a]) then Some (filter (\<lambda>v. K v = k) (xs @ [a])) else None)" for k
    unfolding group_by_snoc map_of_dict_append using m none by auto
  then show ?case using d by (simp add: group_by_snoc distinct_dict_append)
qed

lemma group_by_mem:
  "(k, g) \<in> set (group_by K xs []) \<longleftrightarrow> k \<in> K ` set xs \<and> g = filter (\<lambda>v. K v = k) xs"
proof -
  have d: "distinct (map fst (group_by K xs []))" using group_by_inv[of K xs] by blast
  have m: "map_of (group_by K xs []) k =
      (if k \<in> K ` set xs then Some (filter (\<lambda>v. K v = k) xs) else None)"
    using group_by_inv[of K xs] by blast
  have "(k, g) \<in> set (group_by K xs []) \<longleftrightarrow> map_of (group_by K xs []) k = Some g"
    using d by simp
  also have "\<dots> \<longleftrightarrow> k \<in> K ` set xs \<and> g = filter (\<lambda>v. K v = k) xs"
    unfolding m by auto
  finally show ?thesis .
qed

lemma key_at_eq_iff: "key_at idxs u = key_at idxs v \<longleftrightarrow> (\<forall>i\<in>set idxs. u ! i = v ! i)"
  by (simp add: key_at_def)

lemma group_by_nth:
  assumes "a < length (group_by K xs [])"
  shows "fst (group_by K xs [] ! a) \<in> K ` set xs \<and>
         snd (group_by K xs [] ! a) = filter (\<lambda>v. K v = fst (group_by K xs [] ! a)) xs"
proof -
  have "group_by K xs [] ! a \<in> set (group_by K xs [])" using assms by (rule nth_mem)
  then have "(fst (group_by K xs [] ! a), snd (group_by K xs [] ! a)) \<in> set (group_by K xs [])"
    by simp
  then show ?thesis unfolding group_by_mem .
qed

text \<open>
  C6: on a non-empty collection of vectors of length \<open>n\<close> and a grouping sample
  (distinct positions below \<open>n\<close>, as many as asked for), the Bucketizer returns groups
  that partition the collection: every group is non-empty, the groups together hold the
  vectors of the collection with their multiplicities, every vector of the collection is
  in exactly one group, and two vectors of the collection are in the same group exactly
  when they agree at all the sampled positions.
\<close>

theorem classify_vectors_by_random_bits_partition:
  assumes "vs \<noteq> []" and "\<forall>v\<in>set vs. length v = n" and "bit_position_sample drawn n k"
  shows "\<exists>groups. classify_vectors_by_random_bits drawn vs k = Inr groups \<and>
     (\<forall>g\<in>set groups. g \<noteq> []) \<and>
     mset (concat groups) = mset vs \<and>
     (\<forall>v\<in>set vs. \<exists>!a. a < length groups \<and> v \<in> set (groups ! a)) \<and>
     (\<forall>u\<in>set vs. \<forall>v\<in>set vs.
        (\<exists>g\<in>set groups. u \<in> set g \<and> v \<in> set g) \<longleftrightarrow> (\<forall>i\<in>set drawn. u ! i = v ! i))"
proof -
  let ?K = "key_at drawn"
  let ?G = "group_by ?K vs []"
  let ?groups = "map snd ?G"
  have res: "classify_vectors_by_random_bits drawn vs k = Inr ?groups"
    using classify_total[OF assms(2,3)] .
  have dist: "distinct (map fst ?G)" using group_by_inv[of ?K vs] by blast
  have grp: "\<exists>kk. kk \<in> ?K ` set vs \<and> g = filter (\<lambda>v. ?K v = kk) vs" if "g \<in> set ?groups" for g
  proof -
    from that obtain kk where "(kk, g) \<in> set ?G" by auto
    then show ?thesis unfolding group_by_mem by blast
  qed
  have nonempty: "\<forall>g\<in>set ?groups. g \<noteq> []"
  proof
    fix g assume "g \<in> set ?groups"
    from grp[OF this] obtain kk where kk: "kk \<in> ?K ` set vs" and g: "g = filter (\<lambda>v. ?K v = kk) vs"
      by blast
    from kk obtain v where "v \<in> set vs" "?K v = kk" by blast
    then have "v \<in> set g" using g by simp
    then show "g \<noteq> []" by auto
  qed
  have ms: "mset (concat ?groups) = mset vs"
    using mset_group_by[of ?K vs "[]"] by simp
  have in_nth: "?K v = fst (?G ! a)" if "a < length ?groups" "v \<in> set (?groups ! a)" for a v
  proof -
    have a: "a < length ?G" using that(1) by simp
    from group_by_nth[OF a] have "snd (?G ! a) = filter (\<lambda>v. ?K v = fst (?G ! a)) vs" by blast
    moreover have "v \<in> set (snd (?G ! a))" using that(2) a by simp
    ultimately show ?thesis by simp
  qed
  have uniq: "\<forall>v\<in>set vs. \<exists>!a. a < length ?groups \<and> v \<in> set (?groups ! a)"
  proof
    fix v assume v: "v \<in> set vs"
    then have "(?K v, filter (\<lambda>w. ?K w = ?K v) vs) \<in> set ?G"
      unfolding group_by_mem by blast
    then obtain a where a: "a < length ?G" and ga: "?G ! a = (?K v, filter (\<lambda>w. ?K w = ?K v) vs)"
      by (auto simp: in_set_conv_nth)
    have ex: "a < length ?groups \<and> v \<in> set (?groups ! a)"
      using a ga v by simp
    show "\<exists>!a. a < length ?groups \<and> v \<in> set (?groups ! a)"
    proof (rule ex1I[of _ a])
      show "a < length ?groups \<and> v \<in> set (?groups ! a)" by (rule ex)
    next
      fix b assume b: "b < length ?groups \<and> v \<in> set (?groups ! b)"
      then have bl: "b < length ?groups" and "v \<in> set (?groups ! b)" by blast+
      then have "?K v = fst (?G ! b)" by (rule in_nth)
      then have "fst (?G ! b) = ?K v" by simp
      moreover have "fst (?G ! a) = ?K v" using ga by simp
      ultimately have "map fst ?G ! b = map fst ?G ! a" using a bl by simp
      moreover have "b < length (map fst ?G)" "a < length (map fst ?G)" using a bl by simp_all
      ultimately show "b = a" using dist nth_eq_iff_index_eq by blast
    qed
  qed
  have same: "\<forall>u\<in>set vs. \<forall>v\<in>set vs.
        (\<exists>g\<in>set ?groups. u \<in> set g \<and> v \<in> set g) \<longleftrightarrow> (\<forall>i\<in>set drawn. u ! i = v ! i)"
  proof (intro ballI)
    fix u v assume u: "u \<in> set vs" and v: "v \<in> set vs"
    have "(\<exists>g\<in>set ?groups. u \<in> set g \<and> v \<in> set g) \<longleftrightarrow> ?K u = ?K v"
    proof
      assume "\<exists>g\<in>set ?groups. u \<in> set g \<and> v \<in> set g"
      then obtain g where g: "g \<in> set ?groups" and ug: "u \<in> set g" and vg: "v \<in> set g" by blast
      from grp[OF g] obtain kk where "g = filter (\<lambda>v. ?K v = kk) vs" by blast
      then show "?K u = ?K v" using ug vg by simp
    next
      assume eq: "?K u = ?K v"
      let ?g = "filter (\<lambda>w. ?K w = ?K u) vs"
      have "(?K u, ?g) \<in> set ?G" unfolding group_by_mem using u by blast
      then have "?g \<in> set ?groups" by force
      moreover have "u \<in> set ?g" "v \<in> set ?g" using u v eq by simp_all
      ultimately show "\<exists>g\<in>set ?groups. u \<in> set g \<and> v \<in> set g" by blast
    qed
    then show "(\<exists>g\<in>set ?groups. u \<in> set g \<and> v \<in> set g) \<longleftrightarrow> (\<forall>i\<in>set drawn. u ! i = v ! i)"
      unfolding key_at_eq_iff .
  qed
  from res nonempty ms uniq same show ?thesis
    by (intro exI[of _ ?groups] conjI)
qed

theorem classify_vectors_by_random_bits_partition_witness:
  "[[0, 0, 0, 0], [0, 0, 0, 1], [1, 1, 1, 1], [1, 0, 1, 0], [1, 1, 0, 0 :: int]] \<noteq> [] \<and>
   list_all (\<lambda>v. length v = 4)
     [[0, 0, 0, 0], [0, 0, 0, 1], [1, 1, 1, 1], [1, 0, 1, 0], [1, 1, 0, 0 :: int]] \<and>
   bit_position_sample [0, 1] 4 2 \<and>
   classify_vectors_by_random_bits [0, 1]
       [[0, 0, 0, 0], [0, 0, 0, 1], [1, 1, 1, 1], [1, 0, 1, 0], [1, 1, 0, 0]] 2
     = Inr [[[0, 0, 0, 0], [0, 0, 0, 1]], [[1, 1, 1, 1], [1, 1, 0, 0]], [[1, 0, 1, 0]]] \<and>
   mset (concat [[[0, 0, 0, 0], [0, 0, 0, 1]], [[1, 1, 1, 1], [1, 1, 0, 0]], [[1, 0, 1, 0 :: int]]])
     = mset [[0, 0, 0, 0], [0, 0, 0, 1], [1, 1, 1, 1], [1, 0, 1, 0], [1, 1, 0, 0]]"
proof -
  let ?vs = "[[0, 0, 0, 0], [0, 0, 0, 1], [1, 1, 1, 1], [1, 0, 1, 0], [1, 1, 0, 0 :: int]]"
  let ?gs = "[[[0, 0, 0, 0], [0, 0, 0, 1]], [[1, 1, 1, 1], [1, 1, 0, 0]], [[1, 0, 1, 0 :: int]]]"
  have h1: "?vs \<noteq> []" by simp
  have h2: "\<forall>v\<in>set ?vs. length v = 4" by simp
  have h3: "bit_position_sample [0, 1] 4 2" by (simp add: bit_position_sample_def)
  have ev: "classify_vectors_by_random_bits [0, 1] ?vs 2 = Inr ?gs"
    by code_simp
  from classify_vectors_by_random_bits_partition [OF h1 h2 h3]
  obtain groups where "classify_vectors_by_random_bits [0, 1] ?vs 2 = Inr groups"
    and "mset (concat groups) = mset ?vs" by blast
  with ev have "mset (concat ?gs) = mset ?vs" by simp
  moreover have "list_all (\<lambda>v. length v = 4) ?vs" by simp
  ultimately show ?thesis using h1 h3 ev by (intro conjI)
qed

section \<open>Minimum-reduction: properties\<close>

lemma min_step_choice: "min_step item best = Inr x \<Longrightarrow> x = item \<or> x = best"
  by (auto simp: min_step_def split: sum.splits if_splits)

lemma fold_min_step_mem:
  "fold_err min_step rest best = Inr r \<Longrightarrow> r \<in> insert best (set rest)"
proof (induction rest arbitrary: best)
  case Nil
  then show ?case by simp
next
  case (Cons item rest)
  from Cons.prems obtain x where x: "min_step item best = Inr x"
    and run: "fold_err min_step rest x = Inr r"
    by (auto split: sum.splits)
  from Cons.IH[OF run] min_step_choice[OF x] show ?case by auto
qed

lemma py_min_mem: "py_min rs = Inr r \<Longrightarrow> r \<in> set rs"
  by (cases rs) (auto simp: py_min_def dest: fold_min_step_mem)

lemma result_lt_total:
  assumes "fst r = fst s \<longrightarrow> (snd r = None \<longleftrightarrow> snd s = None)"
  shows "\<exists>b. result_lt r s = Inr b \<and> (b \<longrightarrow> fst r \<le> fst s) \<and> (\<not> b \<longrightarrow> fst s \<le> fst r)"
proof (cases "fst r = fst s")
  case False
  then show ?thesis by (auto simp: result_lt_def)
next
  case True
  with assms have "snd r = None \<longleftrightarrow> snd s = None" by simp
  then show ?thesis using True
    by (cases "snd r"; cases "snd s") (auto simp: result_lt_def)
qed

lemma min_step_total:
  assumes "fst item = fst best \<longrightarrow> (snd item = None \<longleftrightarrow> snd best = None)"
  shows "\<exists>x. min_step item best = Inr x \<and> (x = item \<or> x = best) \<and>
             fst x \<le> fst item \<and> fst x \<le> fst best"
proof -
  from result_lt_total[OF assms] obtain b where
    "result_lt item best = Inr b" "b \<longrightarrow> fst item \<le> fst best" "\<not> b \<longrightarrow> fst best \<le> fst item"
    by blast
  then show ?thesis by (cases b) (simp_all add: min_step_def)
qed

lemma fold_min_step_total:
  assumes "tie_free S" and "best \<in> S" and "set rest \<subseteq> S"
  shows "\<exists>r. fold_err min_step rest best = Inr r \<and> r \<in> insert best (set rest) \<and>
             (\<forall>s\<in>insert best (set rest). fst r \<le> fst s)"
  using assms(2,3)
proof (induction rest arbitrary: best)
  case Nil
  then show ?case by simp
next
  case (Cons item rest)
  have "item \<in> S" using Cons.prems(2) by simp
  then have "fst item = fst best \<longrightarrow> (snd item = None \<longleftrightarrow> snd best = None)"
    using assms(1) Cons.prems(1) unfolding tie_free_def by blast
  from min_step_total[OF this] obtain x where x: "min_step item best = Inr x"
    and xc: "x = item \<or> x = best" and le1: "fst x \<le> fst item" and le2: "fst x \<le> fst best"
    by blast
  have "x \<in> S" using xc \<open>item \<in> S\<close> Cons.prems(1) by auto
  moreover have "set rest \<subseteq> S" using Cons.prems(2) by simp
  ultimately obtain r where r: "fold_err min_step rest x = Inr r"
    and mem: "r \<in> insert x (set rest)" and least: "\<forall>s\<in>insert x (set rest). fst r \<le> fst s"
    using Cons.IH by blast
  have "fold_err min_step (item # rest) best = Inr r" using x r by simp
  moreover have "r \<in> insert best (set (item # rest))" using mem xc by auto
  moreover have "\<forall>s\<in>insert best (set (item # rest)). fst r \<le> fst s"
  proof
    fix s assume "s \<in> insert best (set (item # rest))"
    then consider "s = best" | "s = item" | "s \<in> set rest" by auto
    then show "fst r \<le> fst s"
    proof cases
      case 1 then show ?thesis using least le2 by force
    next
      case 2 then show ?thesis using least le1 by force
    next
      case 3 then show ?thesis using least by simp
    qed
  qed
  ultimately show ?case by blast
qed

text \<open>
  The reduction does raise. \<open>min\<close> of an empty list is a ValueError: this is the
  reduction over the groups for an empty list of groups, and the reduction over the rounds
  for a round count of zero. A no-pair result and a result with a pair that have the same
  distance are compared at their second components, and that comparison is a TypeError.
\<close>

theorem py_min_counterexample:
  "py_min [] = Inl (ValueError EmptyMin) \<and>
   py_min [(2, Some ([0, 0, 0], [0, 1, 1])), (2, None)] = Inl TypeError \<and>
   find_min_hamming_distance_across_groups [] [] 4 0 = Inl (ValueError EmptyMin) \<and>
   find_min_hamming_using_LSH (\<lambda>r. ([0], [0])) [[0, 1], [0, 0]] 0 = Inl (ValueError EmptyMin)"
proof -
  have two: "Suc (Suc 0) = 2" by simp
  have w: "lsh_width 2 = Inr 1"
    by (simp add: lsh_width_def py_log2_def py_truediv_def py_round_def)
  have f: "filter_width 2 = Inr 1"
    by (simp add: filter_width_def py_log2_def py_round_def)
  have "find_min_hamming_using_LSH (\<lambda>r. ([0], [0])) [[0, 1], [0, 0]] 0 = Inl (ValueError EmptyMin)"
    by (simp add: find_min_hamming_using_LSH_def two w f lsh_rounds_def py_min_def)
  then show ?thesis
    by (simp add: py_min_def min_step_def result_lt_def
          find_min_hamming_distance_across_groups_def random_choice_def)
qed

text \<open>
  On a non-empty list without such a tie, \<open>min\<close> raises nothing and returns a result
  of the list whose distance is the least distance in the list.
\<close>

lemma py_min_returns_least:
  assumes "rs \<noteq> []"
    and "\<forall>r\<in>set rs. \<forall>s\<in>set rs. fst r = fst s \<longrightarrow> (snd r = None \<longleftrightarrow> snd s = None)"
  shows "\<exists>r. py_min rs = Inr r \<and> r \<in> set rs \<and> (\<forall>s\<in>set rs. fst r \<le> fst s)"
proof -
  from assms(1) obtain r0 rest where rs: "rs = r0 # rest" by (cases rs) auto
  have tf: "tie_free (set rs)" unfolding tie_free_def using assms(2) .
  have m: "r0 \<in> set rs" and sub: "set rest \<subseteq> set rs" using rs by auto
  have ins: "insert r0 (set rest) = set rs" using rs by simp
  have run: "py_min rs = fold_err min_step rest r0" using rs by (simp add: py_min_def)
  from fold_min_step_total[OF tf m sub]
  show ?thesis unfolding ins run .
qed

section \<open>LSH Aggregator against Exact Search\<close>

lemma map_err_Inr:
  "map_err f xs = Inr ys \<Longrightarrow> list_all2 (\<lambda>x y. f x = Inr y) xs ys"
  by (induction xs arbitrary: ys) (auto split: sum.splits)

lemma map_err_pure:
  "(\<And>x. x \<in> set xs \<Longrightarrow> f x = Inr (g x)) \<Longrightarrow> map_err f xs = Inr (map g xs)"
  by (induction xs) auto

lemma map_err_mem:
  assumes "map_err f xs = Inr ys" and "y \<in> set ys"
  shows "\<exists>x\<in>set xs. f x = Inr y"
proof -
  from map_err_Inr[OF assms(1)] have l: "list_all2 (\<lambda>x y. f x = Inr y) xs ys" .
  from assms(2) obtain i where i: "i < length ys" "ys ! i = y" by (auto simp: in_set_conv_nth)
  then have "f (xs ! i) = Inr y" using l by (auto simp: list_all2_conv_all_nth)
  moreover have "xs ! i \<in> set xs" using i l by (auto simp: list_all2_conv_all_nth)
  ultimately show ?thesis by blast
qed

lemma subseq_nth_mem:
  assumes "subseq g vs" and "b < length g"
  shows "\<exists>j<length vs. vs ! j = g ! b"
proof -
  have "g ! b \<in> set g" using assms(2) by (rule nth_mem)
  with assms(1) obtain y where "y \<in> set vs" and "g ! b = y" by (rule list_emb_set)
  then show ?thesis by (auto simp: in_set_conv_nth)
qed

lemma subseq_pair:
  "subseq g vs \<Longrightarrow> a < b \<Longrightarrow> b < length g \<Longrightarrow>
     \<exists>i j. i < j \<and> j < length vs \<and> vs ! i = g ! a \<and> vs ! j = g ! b"
proof (induction g vs arbitrary: a b rule: list_emb.induct)
  case (list_emb_Nil ys)
  then show ?case by simp
next
  case (list_emb_Cons xs ys y)
  from list_emb_Cons.IH[OF list_emb_Cons.prems]
  obtain i j where "i < j" "j < length ys" "ys ! i = xs ! a" "ys ! j = xs ! b" by blast
  then have "Suc i < Suc j \<and> Suc j < length (y # ys) \<and> (y # ys) ! Suc i = xs ! a \<and>
             (y # ys) ! Suc j = xs ! b" by simp
  then show ?case by blast
next
  case (list_emb_Cons2 x y xs ys)
  obtain b' where b: "b = Suc b'" using list_emb_Cons2.prems(1) by (cases b) auto
  then have b'len: "b' < length xs" using list_emb_Cons2.prems(2) by simp
  show ?case
  proof (cases a)
    case 0
    from subseq_nth_mem[OF list_emb_Cons2.hyps(2) b'len]
    obtain j where "j < length ys" "ys ! j = xs ! b'" by blast
    then have "0 < Suc j \<and> Suc j < length (y # ys) \<and> (y # ys) ! 0 = (x # xs) ! a \<and>
               (y # ys) ! Suc j = (x # xs) ! b"
      using 0 b list_emb_Cons2.hyps(1) by simp
    then show ?thesis by blast
  next
    case (Suc a')
    then have "a' < b'" using list_emb_Cons2.prems(1) b by simp
    from list_emb_Cons2.IH[OF this b'len]
    obtain i j where "i < j" "j < length ys" "ys ! i = xs ! a'" "ys ! j = xs ! b'" by blast
    then have "Suc i < Suc j \<and> Suc j < length (y # ys) \<and> (y # ys) ! Suc i = (x # xs) ! a \<and>
             (y # ys) ! Suc j = (x # xs) ! b" using Suc b by simp
    then show ?thesis by blast
  qed
qed

lemma scan_lower_bound:
  fixes f :: "'a \<Rightarrow> nat"
  shows "fst (fold (first_min_step f g) xs st) \<le> fst st \<and>
         (\<forall>x\<in>set xs. fst (fold (first_min_step f g) xs st) \<le> f x)"
proof (induction xs rule: rev_induct)
  case Nil
  then show ?case by simp
next
  case (snoc a xs)
  let ?r = "fold (first_min_step f g) xs st"
  have "fst (first_min_step f g a ?r) \<le> fst ?r" "fst (first_min_step f g a ?r) \<le> f a"
    by (simp_all add: first_min_step_def)
  with snoc show ?case by (auto intro: order_trans)
qed

lemma scan_origin:
  fixes f :: "'a \<Rightarrow> nat"
  shows "fold (first_min_step f g) xs st = st \<or>
         (\<exists>x\<in>set xs. fold (first_min_step f g) xs st = (f x, Some (g x)))"
  using first_min_scan[of f g xs st] by auto

lemma exact_lower_bound:
  assumes "vs \<noteq> []" and "\<forall>v\<in>set vs. length v = n"
  shows "\<exists>d p. find_min_hamming_distance vs = Inr (d, p) \<and> d \<le> n + 1 \<and>
           (\<forall>i j. i < j \<and> j < length vs \<longrightarrow> d \<le> hamming (vs ! i) (vs ! j))"
proof -
  let ?r = "fold (first_min_step (ham_at vs) (pair_at vs)) (index_pairs (length vs)) (n + 1, None)"
  have res: "find_min_hamming_distance vs = Inr (fst ?r, snd ?r)"
    using exact_total[OF assms] by simp
  from scan_lower_bound[of "ham_at vs" "pair_at vs" "index_pairs (length vs)" "(n + 1, None)"]
  have le: "fst ?r \<le> n + 1" and all: "\<forall>x\<in>set (index_pairs (length vs)). fst ?r \<le> ham_at vs x"
    by simp_all
  have "\<forall>i j. i < j \<and> j < length vs \<longrightarrow> fst ?r \<le> hamming (vs ! i) (vs ! j)"
  proof (intro allI impI)
    fix i j assume "i < j \<and> j < length vs"
    then have "(i, j) \<in> set (index_pairs (length vs))" by (simp add: set_index_pairs)
    with all have "fst ?r \<le> ham_at vs (i, j)" by (rule bspec)
    then show "fst ?r \<le> hamming (vs ! i) (vs ! j)" by (simp add: ham_at_def)
  qed
  with res le show ?thesis by blast
qed

lemma in_group_origin:
  assumes "find_min_hamming_distance_in_group g idxs = Inr (d, p)"
  shows "g \<noteq> [] \<and> (d = length (hd g) + 1 \<or>
           (\<exists>a b. a < b \<and> b < length g \<and> d = hamming (g ! a) (g ! b)))"
proof -
  from assms obtain calls where
    "find_min_hamming_distance_in_group_logged g idxs = Inr ((d, p), calls)"
    by (auto simp: find_min_hamming_distance_in_group_def split: sum.splits)
  from group_logged_Inr[OF this]
  have ne: "g \<noteq> []" and r: "(d, p) = fold (first_min_step (ham_at g) (pair_at g))
        (filter (agree_at g idxs) (index_pairs (length g))) (length (hd g) + 1, None)"
    by simp_all
  from scan_origin[of "ham_at g" "pair_at g" "filter (agree_at g idxs) (index_pairs (length g))"
      "(length (hd g) + 1, None)"]
  show ?thesis
  proof
    assume "fold (first_min_step (ham_at g) (pair_at g))
        (filter (agree_at g idxs) (index_pairs (length g))) (length (hd g) + 1, None)
        = (length (hd g) + 1, None)"
    with r have "d = length (hd g) + 1" by simp
    with ne show ?thesis by simp
  next
    assume "\<exists>x\<in>set (filter (agree_at g idxs) (index_pairs (length g))).
        fold (first_min_step (ham_at g) (pair_at g))
        (filter (agree_at g idxs) (index_pairs (length g))) (length (hd g) + 1, None)
        = (ham_at g x, Some (pair_at g x))"
    then obtain x where x: "x \<in> set (index_pairs (length g))" and "(d, p) = (ham_at g x, Some (pair_at g x))"
      using r by auto
    then have "d = hamming (g ! fst x) (g ! snd x)" by (simp add: ham_at_def)
    moreover have "fst x < snd x \<and> snd x < length g" using x by (auto simp: set_index_pairs)
    ultimately show ?thesis using ne by blast
  qed
qed

lemma classify_groups:
  assumes "classify_vectors_by_random_bits drawn vs k = Inr groups" and "g \<in> set groups"
  shows "subseq g vs \<and> g \<noteq> []"
proof -
  from classify_Inr[OF assms(1)] assms(2)
  obtain kk where "(kk, g) \<in> set (group_by (key_at drawn) vs [])" by auto
  then have kk: "kk \<in> key_at drawn ` set vs" and g: "g = filter (\<lambda>v. key_at drawn v = kk) vs"
    unfolding group_by_mem by simp_all
  from kk obtain v where "v \<in> set vs" "key_at drawn v = kk" by blast
  then have "v \<in> set g" using g by simp
  then have "g \<noteq> []" by auto
  moreover have "subseq g vs" unfolding g by (rule subseq_filter_left)
  ultimately show ?thesis by simp
qed

lemma across_groups_origin:
  assumes "find_min_hamming_distance_across_groups drawn groups vl k = Inr r"
  shows "\<exists>g\<in>set groups. find_min_hamming_distance_in_group g drawn = Inr r"
proof -
  from assms obtain mins where
    m: "map_err (\<lambda>group. find_min_hamming_distance_in_group group drawn) groups = Inr mins"
    and p: "py_min mins = Inr r"
    by (auto simp: find_min_hamming_distance_across_groups_def random_choice_def
             split: sum.splits if_splits)
  from py_min_mem[OF p] have "r \<in> set mins" .
  from map_err_mem[OF m this] show ?thesis .
qed

lemma lsh_round_origin:
  assumes "lsh_round draws vs vl k1 k2 = Inr (d, p)"
  shows "\<exists>g. subseq g vs \<and> g \<noteq> [] \<and>
           (d = length (hd g) + 1 \<or> (\<exists>a b. a < b \<and> b < length g \<and> d = hamming (g ! a) (g ! b)))"
proof -
  from assms obtain groups where
    c: "classify_vectors_by_random_bits (fst draws) vs k1 = Inr groups"
    and a: "find_min_hamming_distance_across_groups (snd draws) groups vl k2 = Inr (d, p)"
    by (auto simp: lsh_round_def split: sum.splits)
  from across_groups_origin[OF a] obtain g where g: "g \<in> set groups"
    and r: "find_min_hamming_distance_in_group g (snd draws) = Inr (d, p)" by blast
  from classify_groups[OF c g] in_group_origin[OF r] show ?thesis by blast
qed

lemma lsh_rounds_origin:
  assumes "lsh_rounds rng vs vl k1 k2 iterations = Inr r"
  shows "\<exists>i. lsh_round (rng i) vs vl k1 k2 = Inr r"
proof -
  from assms obtain results where
    m: "map_err (\<lambda>i. lsh_round (rng i) vs vl k1 k2) [0 ..< nat iterations] = Inr results"
    and p: "py_min results = Inr r"
    by (auto simp: lsh_rounds_def split: sum.splits)
  from py_min_mem[OF p] have "r \<in> set results" .
  from map_err_mem[OF m this] show ?thesis by blast
qed

lemma lsh_rounds_ge_exact:
  assumes "vs \<noteq> []" and "\<forall>v\<in>set vs. length v = n"
    and "lsh_rounds rng vs vl k1 k2 iterations = Inr (d', p')"
    and "find_min_hamming_distance vs = Inr (d, p)"
  shows "d \<le> d'"
proof -
  from exact_lower_bound[OF assms(1,2)] assms(4)
  have le: "d \<le> n + 1" and all: "\<forall>i j. i < j \<and> j < length vs \<longrightarrow> d \<le> hamming (vs ! i) (vs ! j)"
    by simp_all
  from lsh_rounds_origin[OF assms(3)] obtain i where "lsh_round (rng i) vs vl k1 k2 = Inr (d', p')"
    by blast
  from lsh_round_origin[OF this] obtain g where sub: "subseq g vs" and ne: "g \<noteq> []"
    and cases: "d' = length (hd g) + 1 \<or>
        (\<exists>a b. a < b \<and> b < length g \<and> d' = hamming (g ! a) (g ! b))"
    by blast
  from cases show ?thesis
  proof
    assume s: "d' = length (hd g) + 1"
    have "hd g \<in> set g" using ne by simp
    with sub obtain y where "y \<in> set vs" "hd g = y" by (rule list_emb_set)
    then have "length (hd g) = n" using assms(2) by simp
    with s le show ?thesis by simp
  next
    assume "\<exists>a b. a < b \<and> b < length g \<and> d' = hamming (g ! a) (g ! b)"
    then obtain a b where ab: "a < b" "b < length g" and d': "d' = hamming (g ! a) (g ! b)" by blast
    from subseq_pair[OF sub ab] obtain i j where
      "i < j" "j < length vs" "vs ! i = g ! a" "vs ! j = g ! b" by blast
    with all d' show ?thesis by metis
  qed
qed

text \<open>
  C1: on a collection of at least two vectors of equal length Exact Search returns a
  distance, and for every sequence of draws and every round count, whenever the LSH
  Aggregator returns a result its distance is greater than or equal to the distance of
  Exact Search. No condition is put on the draws or on the widths.
\<close>

theorem lsh_distance_ge_exact:
  assumes "2 \<le> length vectors" and "\<forall>v\<in>set vectors. length v = n"
  shows "\<exists>d p. find_min_hamming_distance vectors = Inr (d, p) \<and>
           (\<forall>d' p'. find_min_hamming_using_LSH rng vectors iterations = Inr (d', p') \<longrightarrow> d \<le> d')"
proof -
  have ne: "vectors \<noteq> []" using assms(1) by auto
  from exact_lower_bound[OF ne assms(2)] obtain d p where
    ex: "find_min_hamming_distance vectors = Inr (d, p)" by blast
  have "d \<le> d'" if "find_min_hamming_using_LSH rng vectors iterations = Inr (d', p')" for d' p'
  proof -
    from that obtain vl k1 k2 where "lsh_rounds rng vectors vl k1 k2 iterations = Inr (d', p')"
      by (auto simp: find_min_hamming_using_LSH_def split: sum.splits list.splits)
    from lsh_rounds_ge_exact[OF ne assms(2) this ex] show ?thesis .
  qed
  with ex show ?thesis by blast
qed

lemma log2_4: "log 2 4 = 2"
proof -
  have "log 2 (2 ^ 2) = real 2" by (rule log_pow_cancel) simp_all
  then show ?thesis by simp
qed

lemma lsh_width_4: "lsh_width 4 = Inr 1"
  by (simp add: lsh_width_def py_log2_def py_truediv_def py_round_def log2_4)

lemma filter_width_4: "filter_width 4 = Inr 2"
  by (simp add: filter_width_def py_log2_def py_round_def log2_4)

theorem lsh_distance_ge_exact_witness:
  "2 \<le> length [[0, 0, 0, 0], [0, 0, 0, 1], [1, 1, 1, 0], [1, 0, 1, 1 :: int]] \<and>
   list_all (\<lambda>v. length v = 4) [[0, 0, 0, 0], [0, 0, 0, 1], [1, 1, 1, 0], [1, 0, 1, 1 :: int]] \<and>
   find_min_hamming_distance [[0, 0, 0, 0], [0, 0, 0, 1], [1, 1, 1, 0], [1, 0, 1, 1]]
     = Inr (1, Some ([0, 0, 0, 0], [0, 0, 0, 1])) \<and>
   find_min_hamming_using_LSH (\<lambda>r. ([3], [0, 1]))
       [[0, 0, 0, 0], [0, 0, 0, 1], [1, 1, 1, 0], [1, 0, 1, 1]] 1 = Inr (5, None) \<and>
   find_min_hamming_using_LSH (\<lambda>r. ([0], [1, 2]))
       [[0, 0, 0, 0], [0, 0, 0, 1], [1, 1, 1, 0], [1, 0, 1, 1]] 1
     = Inr (1, Some ([0, 0, 0, 0], [0, 0, 0, 1])) \<and>
   (\<exists>d p. find_min_hamming_distance [[0, 0, 0, 0], [0, 0, 0, 1], [1, 1, 1, 0], [1, 0, 1, 1]]
              = Inr (d, p) \<and> d \<le> 5)"
proof -
  let ?vs = "[[0, 0, 0, 0], [0, 0, 0, 1], [1, 1, 1, 0], [1, 0, 1, 1 :: int]]"
  have h1: "2 \<le> length ?vs" by simp
  have h2: "\<forall>v\<in>set ?vs. length v = 4" by simp
  have ex: "find_min_hamming_distance ?vs = Inr (1, Some ([0, 0, 0, 0], [0, 0, 0, 1]))"
    by code_simp
  have four: "Suc (Suc (Suc (Suc 0))) = 4" by simp
  have unfold: "find_min_hamming_using_LSH rng ?vs 1 = lsh_rounds rng ?vs 4 1 2 1" for rng
    by (simp add: find_min_hamming_using_LSH_def four lsh_width_4 filter_width_4)
  have r1: "lsh_rounds (\<lambda>r. ([3], [0, 1])) ?vs 4 1 2 1 = Inr (5, None)"
    by code_simp
  have r2: "lsh_rounds (\<lambda>r. ([0], [1, 2])) ?vs 4 1 2 1 = Inr (1, Some ([0, 0, 0, 0], [0, 0, 0, 1]))"
    by code_simp
  have a1: "find_min_hamming_using_LSH (\<lambda>r. ([3], [0, 1])) ?vs 1 = Inr (5, None)"
    using unfold r1 by simp
  have a2: "find_min_hamming_using_LSH (\<lambda>r. ([0], [1, 2])) ?vs 1
      = Inr (1, Some ([0, 0, 0, 0], [0, 0, 0, 1]))"
    using unfold r2 by simp
  from lsh_distance_ge_exact [OF h1 h2, of "\<lambda>r. ([3], [0, 1])" 1]
  obtain d p where e: "find_min_hamming_distance ?vs = Inr (d, p)"
    and le: "\<forall>d' p'. find_min_hamming_using_LSH (\<lambda>r. ([3], [0, 1])) ?vs 1 = Inr (d', p') \<longrightarrow> d \<le> d'"
    by blast
  from le a1 have "d \<le> 5" by blast
  with e have bound: "\<exists>d p. find_min_hamming_distance ?vs = Inr (d, p) \<and> d \<le> 5" by blast
  have "list_all (\<lambda>v. length v = 4) ?vs" by simp
  with h1 ex a1 a2 bound show ?thesis by (intro conjI)
qed

section \<open>Degenerate inputs of the LSH Aggregator\<close>

lemma lsh_width_0: "lsh_width 0 = Inl (ValueError MathDomain)"
  by (simp add: lsh_width_def py_log2_def)

lemma lsh_width_1: "lsh_width 1 = Inl ZeroDivisionError"
  by (simp add: lsh_width_def py_log2_def py_truediv_def)

lemma filter_width_0: "filter_width 0 = Inl (ValueError MathDomain)"
  by (simp add: filter_width_def py_log2_def)

lemma lsh_width_ge2:
  assumes "2 \<le> m"
  shows "\<exists>k. lsh_width m = Inr k"
proof -
  have m: "1 < real m" using assms by simp
  then have l: "0 < log 2 (real m)" by simp
  then have q: "0 < real m / log 2 (real m)" using m by simp
  have "py_log2 (real m) = Inr (log 2 (real m))" using m by (simp add: py_log2_def)
  moreover have "py_truediv (real m) (log 2 (real m)) = Inr (real m / log 2 (real m))"
    using l by (simp add: py_truediv_def)
  moreover have "py_log2 (real m / log 2 (real m)) = Inr (log 2 (real m / log 2 (real m)))"
    using q by (simp add: py_log2_def)
  ultimately show ?thesis by (simp add: lsh_width_def)
qed

text \<open>
  For two vectors of length zero the grouping width \<open>round(log2(m / log2(m)))\<close> is
  computed without a fault and is 1; the fault comes from the filter width
  \<open>round(log2(n))\<close>.
\<close>

theorem width_formula_counterexample:
  "lsh_width (length [[], [] :: vec]) = Inr 1 \<and>
   filter_width (length ([] :: vec)) = Inl (ValueError MathDomain) \<and>
   find_min_hamming_using_LSH (\<lambda>r. ([], [])) [[], []] 1 = Inl (ValueError MathDomain)"
proof -
  have two: "Suc (Suc 0) = 2" by simp
  have w: "lsh_width 2 = Inr 1"
    by (simp add: lsh_width_def py_log2_def py_truediv_def py_round_def)
  then show ?thesis
    by (simp add: find_min_hamming_using_LSH_def two filter_width_0)
qed

text \<open>
  C4, amended: the width formulas of the LSH Aggregator are not guarded, and a degenerate
  input ends in an arithmetic fault, never in a validation error. For an empty collection
  the grouping width \<open>round(log2(m / log2(m)))\<close> fails with the domain error of
  \<open>log2\<close>; for a collection of exactly one vector it fails with a division by zero;
  for a collection of at least two vectors of length zero the grouping width is computed
  and the filter width \<open>round(log2(n))\<close> fails with the domain error of \<open>log2\<close>.
\<close>

theorem widths_unguarded:
  "find_min_hamming_using_LSH rng [] iterations = Inl (ValueError MathDomain) \<and>
   find_min_hamming_using_LSH rng [v] iterations = Inl ZeroDivisionError \<and>
   (2 \<le> length vs \<and> hd vs = [] \<longrightarrow>
      (\<exists>k. lsh_width (length vs) = Inr k) \<and>
      filter_width (length (hd vs)) = Inl (ValueError MathDomain) \<and>
      find_min_hamming_using_LSH rng vs iterations = Inl (ValueError MathDomain))"
proof (intro conjI impI)
  show "find_min_hamming_using_LSH rng [] iterations = Inl (ValueError MathDomain)"
    by (simp add: find_min_hamming_using_LSH_def lsh_width_0)
  show "find_min_hamming_using_LSH rng [v] iterations = Inl ZeroDivisionError"
    using lsh_width_1 by (simp add: find_min_hamming_using_LSH_def)
next
  assume a: "2 \<le> length vs \<and> hd vs = []"
  then obtain k where k: "lsh_width (length vs) = Inr k" using lsh_width_ge2 by blast
  then show "\<exists>k. lsh_width (length vs) = Inr k" ..
  show f: "filter_width (length (hd vs)) = Inl (ValueError MathDomain)"
    using a by (simp add: filter_width_0)
  from a obtain rest where vs: "vs = [] # rest" by (cases vs) auto
  have "filter_width (length ([] :: vec)) = Inl (ValueError MathDomain)"
    by (simp add: filter_width_0)
  then show "find_min_hamming_using_LSH rng vs iterations = Inl (ValueError MathDomain)"
    using k unfolding find_min_hamming_using_LSH_def vs by simp
qed

theorem widths_unguarded_witness:
  "find_min_hamming_using_LSH (\<lambda>r. ([0], [0])) [] 3 = Inl (ValueError MathDomain) \<and>
   find_min_hamming_using_LSH (\<lambda>r. ([0], [0])) [[0, 1, 1, 0]] 3 = Inl ZeroDivisionError \<and>
   2 \<le> length [[], [], [] :: vec] \<and> hd [[], [], [] :: vec] = [] \<and>
   find_min_hamming_using_LSH (\<lambda>r. ([], [])) [[], [], []] 3 = Inl (ValueError MathDomain)"
proof -
  have h: "2 \<le> length [[], [], [] :: vec] \<and> hd [[], [], [] :: vec] = []" by simp
  from widths_unguarded [of "\<lambda>r. ([0], [0])" 3 "[0, 1, 1, 0]" "[]"]
  have a: "find_min_hamming_using_LSH (\<lambda>r. ([0], [0])) [] 3 = Inl (ValueError MathDomain)"
    and b: "find_min_hamming_using_LSH (\<lambda>r. ([0], [0])) [[0, 1, 1, 0]] 3 = Inl ZeroDivisionError"
    by blast+
  from widths_unguarded [of "\<lambda>r. ([], [])" 3 "[]" "[[], [], []]"] h
  have c: "find_min_hamming_using_LSH (\<lambda>r. ([], [])) [[], [], []] 3 = Inl (ValueError MathDomain)"
    by blast
  from a b h c show ?thesis by (intro conjI) simp_all
qed

section \<open>Evaluation Harness: properties\<close>

lemma fold_trials:
  "fold (\<lambda>t st. (fst st + (if ex t = ap t then 1 else 0), snd st @ [(ex t, ap t)])) ts (c, rs) =
     (c + length (filter (\<lambda>t. ex t = ap t) ts), rs @ map (\<lambda>t. (ex t, ap t)) ts)"
  for ex ap :: "nat \<Rightarrow> nat"
  by (induction ts arbitrary: c rs) simp_all

lemma card_filter_upt: "length (filter P [0 ..< N]) = card {t. t < N \<and> P t}"
proof -
  have "length (filter P [0 ..< N]) = card ({t. P t} \<inter> set [0 ..< N])"
    by (rule distinct_length_filter) simp
  also have "{t. P t} \<inter> set [0 ..< N] = {t. t < N \<and> P t}" by auto
  finally show ?thesis .
qed

lemma set_filter_upt: "set (filter P [0 ..< N]) = {t. t < N \<and> P t}"
  by auto

text \<open>
  C10: for a positive trial count, when trial \<open>t\<close> yields the exact distance
  \<open>ex t\<close> and the approximate distance \<open>ap t\<close>, the harness reports as hit rate
  the fraction of the trials with \<open>ex t = ap t\<close> times 100, a number between 0 and
  100, and as average relative error the mean of \<open>(ap t - ex t) / ex t\<close> over exactly
  the trials with \<open>ex t \<noteq> 0\<close>, as a percentage (0 when there is no such trial). A
  trial with \<open>ex t = 0\<close> is left out of the mean and counted for the hit rate.
\<close>

theorem compare_result_statistics:
  fixes ex ap :: "nat \<Rightarrow> nat"
  assumes "0 < num"
    and "\<forall>t<nat num. get_min_hamming_results (fst (source t)) (snd (source t)) lsh_iter
            = Inr (ex t, ap t)"
  shows "\<exists>hits err. compare_result source num lsh_iter = Inr (hits, err) \<and>
     hits = of_nat (card {t. t < nat num \<and> ex t = ap t}) / of_int num * 100 \<and>
     0 \<le> hits \<and> hits \<le> 100 \<and>
     err = (if {t. t < nat num \<and> ex t \<noteq> 0} = {} then 0
            else (\<Sum>t\<in>{t. t < nat num \<and> ex t \<noteq> 0}.
                    (of_nat (ap t) - of_nat (ex t)) / of_nat (ex t))
                 / of_nat (card {t. t < nat num \<and> ex t \<noteq> 0}) * 100)"
proof -
  let ?N = "nat num"
  let ?H = "{t. t < ?N \<and> ex t = ap t}"
  let ?V = "{t. t < ?N \<and> ex t \<noteq> 0}"
  let ?vs = "filter (\<lambda>t. ex t \<noteq> 0) [0 ..< ?N]"
  let ?results = "map (\<lambda>t. (ex t, ap t)) [0 ..< ?N]"
  let ?rel = "\<lambda>t. (of_nat (ap t) - of_nat (ex t)) / of_nat (ex t) :: rat"
  have step: "trial_step source lsh_iter t st =
      Inr (fst st + (if ex t = ap t then 1 else 0), snd st @ [(ex t, ap t)])"
    if "t \<in> set [0 ..< ?N]" for t st
    using that assms(2) by (simp add: trial_step_def)
  have "fold_err (trial_step source lsh_iter) [0 ..< ?N] (0, []) =
      Inr (fold (\<lambda>t st. (fst st + (if ex t = ap t then 1 else 0), snd st @ [(ex t, ap t)]))
             [0 ..< ?N] (0, []))"
    by (rule fold_err_pure) (rule step)
  then have loop: "fold_err (trial_step source lsh_iter) [0 ..< ?N] (0, []) =
      Inr (card ?H, ?results)"
    by (simp add: fold_trials card_filter_upt)
  have valid: "filter (\<lambda>(exact, approx). exact \<noteq> 0) ?results = map (\<lambda>t. (ex t, ap t)) ?vs"
    by (simp add: filter_map comp_def)
  have sum: "sum_list (map relative_error (map (\<lambda>t. (ex t, ap t)) ?vs)) = sum ?rel ?V"
  proof -
    have "sum_list (map relative_error (map (\<lambda>t. (ex t, ap t)) ?vs)) = sum_list (map ?rel ?vs)"
      by (simp add: comp_def relative_error_def)
    also have "\<dots> = sum ?rel (set ?vs)"
      by (rule sum_list_distinct_conv_sum_set) simp
    finally show ?thesis by (simp only: set_filter_upt)
  qed
  have len: "length (map (\<lambda>t. (ex t, ap t)) ?vs) = card ?V"
    by (simp add: card_filter_upt)
  have "(set ?vs = {}) = (?vs = [])" by (rule set_empty)
  then have "(?V = {}) = (?vs = [])" unfolding set_filter_upt .
  then have empty: "(map (\<lambda>t. (ex t, ap t)) ?vs \<noteq> []) = (?V \<noteq> {})" by simp
  let ?hits = "of_nat (card ?H) / of_int num * 100 :: rat"
  let ?err = "(if ?V = {} then 0 else sum ?rel ?V / of_nat (card ?V) * 100) :: rat"
  have nz: "num \<noteq> 0" using assms(1) by simp
  have "compare_result source num lsh_iter =
      Inr (?hits, if ?V \<noteq> {} then sum ?rel ?V / of_nat (card ?V) * 100 else 0)"
    unfolding compare_result_def loop
    by (simp only: Let_def valid sum len empty sum.case prod.case nz if_False)
  moreover have "(if ?V \<noteq> {} then sum ?rel ?V / of_nat (card ?V) * 100 else 0) = ?err"
    by simp
  ultimately have res: "compare_result source num lsh_iter = Inr (?hits, ?err)"
    by (simp only:)
  have "card ?H \<le> card {..<?N}" by (rule card_mono) auto
  then have "card ?H \<le> ?N" by simp
  then have "int (card ?H) \<le> num" using assms(1) by simp
  then have "(of_nat (card ?H) :: rat) \<le> of_int num"
    by (metis of_int_le_iff of_int_of_nat_eq)
  moreover have pos: "(0 :: rat) < of_int num" using assms(1) by simp
  ultimately have "(of_nat (card ?H) :: rat) / of_int num \<le> 1"
    by (simp add: divide_le_eq_1)
  then have "(of_nat (card ?H) :: rat) / of_int num * 100 \<le> 1 * 100"
    by (rule mult_right_mono) simp
  then have up: "?hits \<le> 100" by simp
  have low: "0 \<le> ?hits" using pos by simp
  from res low up show ?thesis by (intro exI[of _ ?hits] exI[of _ ?err] conjI refl)
qed

lemma lsh_of_four:
  assumes "length vs = 4" and "length (hd vs) = 4"
  shows "find_min_hamming_using_LSH rng vs iterations = lsh_rounds rng vs 4 1 2 iterations"
proof -
  from assms(1) obtain v0 rest where vs: "vs = v0 # rest" by (cases vs) auto
  then have "length v0 = 4" using assms(2) by simp
  then show ?thesis
    using assms(1) lsh_width_4 filter_width_4
    unfolding find_min_hamming_using_LSH_def vs by (simp del: length_Cons)
qed

theorem compare_result_statistics_witness:
  "(0 :: int) < 3 \<and>
   get_min_hamming_results (fst (example_source 0)) (snd (example_source 0)) 1 = Inr (1, 5) \<and>
   get_min_hamming_results (fst (example_source 1)) (snd (example_source 1)) 1 = Inr (1, 1) \<and>
   get_min_hamming_results (fst (example_source 2)) (snd (example_source 2)) 1 = Inr (0, 0) \<and>
   compare_result example_source 3 1 = Inr (200 / 3, 200) \<and>
   (\<exists>hits err. compare_result example_source 3 1 = Inr (hits, err) \<and> 0 \<le> hits \<and> hits \<le> 100)"
proof -
  let ?v = "[[0, 0, 0, 0], [0, 0, 0, 1], [1, 1, 1, 0], [1, 0, 1, 1 :: int]]"
  let ?w = "[[0, 0, 0, 0], [0, 0, 0, 0], [1, 1, 1, 0], [1, 0, 1, 1 :: int]]"
  have e0: "find_min_hamming_distance ?v = Inr (1, Some ([0, 0, 0, 0], [0, 0, 0, 1]))"
    by code_simp
  have e2: "find_min_hamming_distance ?w = Inr (0, Some ([0, 0, 0, 0], [0, 0, 0, 0]))"
    by code_simp
  have a0: "find_min_hamming_using_LSH (\<lambda>r. ([3], [0, 2])) ?v 1 = Inr (5, None)"
    unfolding lsh_of_four[of ?v, simplified] by code_simp
  have a1: "find_min_hamming_using_LSH (\<lambda>r. ([2], [0, 2])) ?v 1
      = Inr (1, Some ([0, 0, 0, 0], [0, 0, 0, 1]))"
    unfolding lsh_of_four[of ?v, simplified] by code_simp
  have a2: "find_min_hamming_using_LSH (\<lambda>r. ([2], [0, 2])) ?w 1
      = Inr (0, Some ([0, 0, 0, 0], [0, 0, 0, 0]))"
    unfolding lsh_of_four[of ?w, simplified] by code_simp
  have g0: "get_min_hamming_results (fst (example_source 0)) (snd (example_source 0)) 1 = Inr (1, 5)"
    by (simp add: example_source_def get_min_hamming_results_def e0 a0)
  have g1: "get_min_hamming_results (fst (example_source 1)) (snd (example_source 1)) 1 = Inr (1, 1)"
    by (simp add: example_source_def get_min_hamming_results_def e0 a1)
  have g2: "get_min_hamming_results (fst (example_source 2)) (snd (example_source 2)) 1 = Inr (0, 0)"
    by (simp add: example_source_def get_min_hamming_results_def e2 a2)
  have h1: "(0 :: int) < 3" by simp
  have h2: "\<forall>t<nat 3. get_min_hamming_results (fst (example_source t)) (snd (example_source t)) 1
      = Inr ((\<lambda>t. if t = 2 then 0 else 1) t, (\<lambda>t. if t = 0 then 5 else if t = 1 then 1 else 0) t)"
  proof (intro allI impI)
    fix t :: nat assume "t < nat 3"
    then consider "t = 0" | "t = 1" | "t = 2" by force
    then show "get_min_hamming_results (fst (example_source t)) (snd (example_source t)) 1
      = Inr ((\<lambda>t. if t = 2 then 0 else 1) t, (\<lambda>t. if t = 0 then 5 else if t = 1 then 1 else 0) t)"
      using g0 g1 g2 by cases simp_all
  qed
  have upt3: "[0 ..< nat 3] = [0, 1, 2]" by (simp add: upt_rec numeral_eq_Suc)
  have ev: "compare_result example_source 3 1 = Inr (200 / 3, 200)"
    using g0 g1 g2 unfolding compare_result_def upt3
    by (simp add: trial_step_def relative_error_def)
  from compare_result_statistics [OF h1 h2]
  obtain hits err where "compare_result example_source 3 1 = Inr (hits, err)"
    and "0 \<le> hits" and "hits \<le> 100" by blast
  then have "\<exists>hits err. compare_result example_source 3 1 = Inr (hits, err) \<and> 0 \<le> hits \<and> hits \<le> 100"
    by blast
  with h1 g0 g1 g2 ev show ?thesis by (intro conjI)
qed

section \<open>LSH Aggregator: when it returns\<close>

text \<open>
  With a positive round count, widths that the formulas compute, and draws that are
  samples of these widths, every reduction is over a non-empty list of results of the
  shape above, and the LSH Aggregator returns.
\<close>

lemma tie_free_run_results:
  assumes "\<forall>r\<in>S. run_result n r"
  shows "tie_free S"
  unfolding tie_free_def
proof (intro ballI impI)
  fix r s assume "r \<in> S" "s \<in> S" and eq: "fst r = fst s"
  then have "run_result n r" "run_result n s" using assms by simp_all
  then show "(snd r = None) = (snd s = None)" using eq by (auto simp: run_result_def)
qed

lemma map_err_total:
  "\<forall>x\<in>set xs. \<exists>y. f x = Inr y \<and> P y \<Longrightarrow>
     \<exists>ys. map_err f xs = Inr ys \<and> length ys = length xs \<and> (\<forall>y\<in>set ys. P y)"
proof (induction xs)
  case Nil
  then show ?case by simp
next
  case (Cons x xs)
  then obtain y where y: "f x = Inr y" "P y" by auto
  from Cons obtain ys where "map_err f xs = Inr ys" "length ys = length xs" "\<forall>y\<in>set ys. P y"
    by auto
  with y have "map_err f (x # xs) = Inr (y # ys) \<and> length (y # ys) = length (x # xs) \<and>
      (\<forall>z\<in>set (y # ys). P z)" by simp
  then show ?case by blast
qed

lemma py_min_run_results:
  assumes "rs \<noteq> []" and "\<forall>r\<in>set rs. run_result n r"
  shows "\<exists>r. py_min rs = Inr r \<and> run_result n r"
proof -
  from assms(1) obtain r0 rest where rs: "rs = r0 # rest" by (cases rs) auto
  have tf: "tie_free (set rs)" using assms(2) by (rule tie_free_run_results)
  have m: "r0 \<in> set rs" and sub: "set rest \<subseteq> set rs" using rs by auto
  have ins: "insert r0 (set rest) = set rs" using rs by simp
  have run: "py_min rs = fold_err min_step rest r0" using rs by (simp add: py_min_def)
  from fold_min_step_total[OF tf m sub]
  obtain r where "py_min rs = Inr r" "r \<in> set rs" unfolding ins run by blast
  with assms(2) show ?thesis by blast
qed

lemma in_group_total:
  assumes "vs \<noteq> []" and "\<forall>v\<in>set vs. length v = n" and "list_all (\<lambda>k. k < n) idxs"
  shows "\<exists>r. find_min_hamming_distance_in_group vs idxs = Inr r \<and> run_result n r"
proof -
  let ?f = "ham_at vs" and ?g = "pair_at vs"
  let ?calls = "filter (agree_at vs idxs) (index_pairs (length vs))"
  let ?res = "fold (first_min_step ?f ?g) ?calls (n + 1, None)"
  have "find_min_hamming_distance_in_group_logged vs idxs = Inr (?res, ?calls)"
    using group_logged_total[OF assms] .
  then have plain: "find_min_hamming_distance_in_group vs idxs = Inr ?res"
    by (simp add: find_min_hamming_distance_in_group_def)
  from scan_origin[of ?f ?g ?calls "(n + 1, None)"]
  have "run_result n ?res"
  proof
    assume "?res = (n + 1, None)"
    then show ?thesis by (simp add: run_result_def)
  next
    assume "\<exists>x\<in>set ?calls. ?res = (?f x, Some (?g x))"
    then obtain x where x: "x \<in> set ?calls" and r: "?res = (?f x, Some (?g x))" by blast
    from x have "x \<in> set (index_pairs (length vs))" by simp
    then have "fst x < length vs" by (auto simp: set_index_pairs)
    then have "?f x \<le> n" using ham_at_le[OF assms(2)] by blast
    then show ?thesis using r by (simp add: run_result_def)
  qed
  with plain show ?thesis by blast
qed

lemma across_groups_total:
  assumes "groups \<noteq> []" and "\<forall>g\<in>set groups. g \<noteq> [] \<and> (\<forall>v\<in>set g. length v = n)"
    and "bit_position_sample drawn n k"
  shows "\<exists>r. find_min_hamming_distance_across_groups drawn groups n k = Inr r \<and> run_result n r"
proof -
  have ch: "random_choice drawn n k = Inr drawn"
    using sample_length[OF assms(3)] by (simp add: random_choice_def)
  have idx: "list_all (\<lambda>k. k < n) drawn" using assms(3) by (simp add: bit_position_sample_def)
  have "\<forall>g\<in>set groups. \<exists>r. find_min_hamming_distance_in_group g drawn = Inr r \<and> run_result n r"
    using assms(2) idx in_group_total by blast
  from map_err_total[OF this] obtain mins where
    m: "map_err (\<lambda>group. find_min_hamming_distance_in_group group drawn) groups = Inr mins"
    and len: "length mins = length groups" and wf: "\<forall>r\<in>set mins. run_result n r"
    by blast
  have "mins \<noteq> []" using len assms(1) by auto
  from py_min_run_results[OF this wf] obtain r where "py_min mins = Inr r" "run_result n r" by blast
  then show ?thesis using ch m by (simp add: find_min_hamming_distance_across_groups_def)
qed

lemma lsh_round_total:
  assumes "vs \<noteq> []" and "\<forall>v\<in>set vs. length v = n"
    and "bit_position_sample (fst draws) n k1" and "bit_position_sample (snd draws) n k2"
  shows "\<exists>r. lsh_round draws vs n k1 k2 = Inr r \<and> run_result n r"
proof -
  let ?groups = "map snd (group_by (key_at (fst draws)) vs [])"
  have c: "classify_vectors_by_random_bits (fst draws) vs k1 = Inr ?groups"
    using classify_total[OF assms(2,3)] .
  have "mset (concat ?groups) = mset vs" using mset_group_by[of "key_at (fst draws)" vs "[]"] by simp
  then have "concat ?groups \<noteq> []" using assms(1) by (metis mset_zero_iff)
  then have ne: "?groups \<noteq> []" by auto
  have each: "\<forall>g\<in>set ?groups. g \<noteq> [] \<and> (\<forall>v\<in>set g. length v = n)"
  proof
    fix g assume "g \<in> set ?groups"
    from classify_groups[OF c this] have sub: "subseq g vs" and gne: "g \<noteq> []" by simp_all
    have "\<forall>v\<in>set g. length v = n"
    proof
      fix v assume "v \<in> set g"
      with sub obtain y where "y \<in> set vs" "v = y" by (rule list_emb_set)
      then show "length v = n" using assms(2) by simp
    qed
    with gne show "g \<noteq> [] \<and> (\<forall>v\<in>set g. length v = n)" by simp
  qed
  from across_groups_total[OF ne each assms(4)] c show ?thesis
    by (simp add: lsh_round_def)
qed

lemma lsh_rounds_total:
  assumes "vs \<noteq> []" and "\<forall>v\<in>set vs. length v = n" and "0 < iterations"
    and "\<forall>i<nat iterations. bit_position_sample (fst (rng i)) n k1 \<and>
                              bit_position_sample (snd (rng i)) n k2"
  shows "\<exists>r. lsh_rounds rng vs n k1 k2 iterations = Inr r \<and> run_result n r"
proof -
  have "\<forall>i\<in>set [0 ..< nat iterations]. \<exists>r. lsh_round (rng i) vs n k1 k2 = Inr r \<and> run_result n r"
    using assms(4) lsh_round_total[OF assms(1,2)] by simp
  from map_err_total[OF this] obtain results where
    m: "map_err (\<lambda>i. lsh_round (rng i) vs n k1 k2) [0 ..< nat iterations] = Inr results"
    and len: "length results = length [0 ..< nat iterations]"
    and wf: "\<forall>r\<in>set results. run_result n r"
    by blast
  have "results \<noteq> []" using len assms(3) by auto
  from py_min_run_results[OF this wf] obtain r where "py_min results = Inr r" "run_result n r"
    by blast
  then show ?thesis using m by (simp add: lsh_rounds_def)
qed

lemma find_min_hamming_using_LSH_returns:
  assumes "vs \<noteq> []" and "\<forall>v\<in>set vs. length v = n" and "0 < iterations"
    and "lsh_width (length vs) = Inr k1" and "filter_width n = Inr k2"
    and "\<forall>i<nat iterations. bit_position_sample (fst (rng i)) n k1 \<and>
                              bit_position_sample (snd (rng i)) n k2"
  shows "\<exists>r. find_min_hamming_using_LSH rng vs iterations = Inr r \<and> run_result n r"
proof -
  from assms(1) obtain v0 rest where vs: "vs = v0 # rest" by (cases vs) auto
  then have n: "length v0 = n" using assms(2) by simp
  have "find_min_hamming_using_LSH rng vs iterations = lsh_rounds rng vs n k1 k2 iterations"
    using assms(4,5) n unfolding find_min_hamming_using_LSH_def vs by (simp del: length_Cons)
  with lsh_rounds_total[OF assms(1,2,3,6)] show ?thesis by simp
qed

section \<open>Minimum-reduction over the groups and over the rounds\<close>

lemma across_groups_least:
  assumes "groups \<noteq> []" and "0 \<le> k" and "k \<le> int vl"
    and "\<forall>g\<in>set groups. find_min_hamming_distance_in_group g drawn = Inr (res g)"
    and "\<forall>g\<in>set groups. \<forall>h\<in>set groups.
           fst (res g) = fst (res h) \<longrightarrow> (snd (res g) = None \<longleftrightarrow> snd (res h) = None)"
  shows "\<exists>g\<in>set groups.
           find_min_hamming_distance_across_groups drawn groups vl k = Inr (res g) \<and>
           (\<forall>h\<in>set groups. fst (res g) \<le> fst (res h))"
proof -
  have ch: "random_choice drawn vl k = Inr drawn"
    using assms(2,3) by (simp add: random_choice_def)
  have m: "map_err (\<lambda>group. find_min_hamming_distance_in_group group drawn) groups
      = Inr (map res groups)"
  proof (rule map_err_pure)
    fix x assume "x \<in> set groups"
    with assms(4) show "find_min_hamming_distance_in_group x drawn = Inr (res x)" by (rule bspec)
  qed
  have ne: "map res groups \<noteq> []" using assms(1) by simp
  have tf: "\<forall>r\<in>set (map res groups). \<forall>s\<in>set (map res groups).
      fst r = fst s \<longrightarrow> (snd r = None \<longleftrightarrow> snd s = None)"
  proof (intro ballI impI)
    fix r s assume "r \<in> set (map res groups)" "s \<in> set (map res groups)" "fst r = fst s"
    then obtain g h where g: "g \<in> set groups" and h: "h \<in> set groups"
      and rs: "r = res g" "s = res h" and eq: "fst (res g) = fst (res h)" by auto
    from assms(5) g have "\<forall>h\<in>set groups.
        fst (res g) = fst (res h) \<longrightarrow> (snd (res g) = None \<longleftrightarrow> snd (res h) = None)"
      by (rule bspec)
    from this h have "fst (res g) = fst (res h) \<longrightarrow> (snd (res g) = None \<longleftrightarrow> snd (res h) = None)"
      by (rule bspec)
    with eq rs show "(snd r = None) = (snd s = None)" by simp
  qed
  from py_min_returns_least[OF ne tf] obtain r where r: "py_min (map res groups) = Inr r"
    and mem: "r \<in> set (map res groups)" and least: "\<forall>s\<in>set (map res groups). fst r \<le> fst s"
    by blast
  from mem obtain g where g: "g \<in> set groups" and rg: "r = res g" by auto
  have "find_min_hamming_distance_across_groups drawn groups vl k = Inr (res g)"
    using ch m r rg by (simp add: find_min_hamming_distance_across_groups_def)
  moreover have "\<forall>h\<in>set groups. fst (res g) \<le> fst (res h)" using least rg by simp
  ultimately show ?thesis using g by blast
qed

lemma lsh_rounds_least:
  assumes "0 < iterations"
    and "\<forall>i<nat iterations. lsh_round (rng i) vs vl k1 k2 = Inr (res i)"
    and "\<forall>i<nat iterations. \<forall>j<nat iterations.
           fst (res i) = fst (res j) \<longrightarrow> (snd (res i) = None \<longleftrightarrow> snd (res j) = None)"
  shows "\<exists>i<nat iterations. lsh_rounds rng vs vl k1 k2 iterations = Inr (res i) \<and>
           (\<forall>j<nat iterations. fst (res i) \<le> fst (res j))"
proof -
  let ?is = "[0 ..< nat iterations]"
  have m: "map_err (\<lambda>r. lsh_round (rng r) vs vl k1 k2) ?is = Inr (map res ?is)"
  proof (rule map_err_pure)
    fix x assume "x \<in> set ?is"
    then have "x < nat iterations" by simp
    with assms(2) show "lsh_round (rng x) vs vl k1 k2 = Inr (res x)" by simp
  qed
  have ne: "map res ?is \<noteq> []" using assms(1) by simp
  have tf: "\<forall>r\<in>set (map res ?is). \<forall>s\<in>set (map res ?is).
      fst r = fst s \<longrightarrow> (snd r = None \<longleftrightarrow> snd s = None)"
  proof (intro ballI impI)
    fix r s assume "r \<in> set (map res ?is)" "s \<in> set (map res ?is)" "fst r = fst s"
    then obtain i j where i: "i \<in> set ?is" and j: "j \<in> set ?is"
      and rs: "r = res i" "s = res j" and eq: "fst (res i) = fst (res j)"
      unfolding set_map by (elim imageE) simp
    then have i: "i < nat iterations" and j: "j < nat iterations" by simp_all
    have "(snd (res i) = None) = (snd (res j) = None)"
      using assms(3)[rule_format, OF i j eq] .
    with rs show "(snd r = None) = (snd s = None)" by simp
  qed
  from py_min_returns_least[OF ne tf] obtain r where r: "py_min (map res ?is) = Inr r"
    and mem: "r \<in> set (map res ?is)" and least: "\<forall>s\<in>set (map res ?is). fst r \<le> fst s"
    by blast
  from mem obtain i where "i \<in> set ?is" and ri: "r = res i"
    unfolding set_map by (elim imageE)
  then have i: "i < nat iterations" by simp
  have "lsh_rounds rng vs vl k1 k2 iterations = Inr (res i)"
    using m r ri by (simp add: lsh_rounds_def)
  moreover have "\<forall>j<nat iterations. fst (res i) \<le> fst (res j)"
  proof (intro allI impI)
    fix j assume "j < nat iterations"
    then have "res j \<in> set (map res ?is)" by simp
    with least have "fst r \<le> fst (res j)" by (rule bspec)
    then show "fst (res i) \<le> fst (res j)" using ri by simp
  qed
  ultimately show ?thesis using i by blast
qed

text \<open>
  C3, amended: when the per-group searches of a non-empty list of groups all return and
  the filter sample can be drawn, and no result without a pair has the distance of a
  result with a pair, \<open>find_min_hamming_distance_across_groups\<close> raises nothing and
  returns one of the per-group results, of least distance among them. When the rounds of
  a positive round count all return, the widths are computed, and no round result
  without a pair has the distance of a round result with a pair,
  \<open>find_min_hamming_using_LSH\<close> raises nothing and returns one of the round results,
  of least distance among them. The results of one run over vectors of one length
  \<open>n\<close> have no such tie: the sentinel has distance \<open>n + 1\<close>, a pair at most
  \<open>n\<close>.
\<close>

theorem min_reduction_least:
  "(groups \<noteq> [] \<and> 0 \<le> k \<and> k \<le> int vl \<and>
    (\<forall>g\<in>set groups. find_min_hamming_distance_in_group g drawn = Inr (res g)) \<and>
    (\<forall>g\<in>set groups. \<forall>h\<in>set groups.
        fst (res g) = fst (res h) \<longrightarrow> (snd (res g) = None \<longleftrightarrow> snd (res h) = None))
    \<longrightarrow> (\<exists>g\<in>set groups.
           find_min_hamming_distance_across_groups drawn groups vl k = Inr (res g) \<and>
           (\<forall>h\<in>set groups. fst (res g) \<le> fst (res h)))) \<and>
   (0 < iterations \<and> vs \<noteq> [] \<and>
    lsh_width (length vs) = Inr k1 \<and> filter_width (length (hd vs)) = Inr k2 \<and>
    (\<forall>i<nat iterations. \<exists>gs.
        classify_vectors_by_random_bits (fst (rng i)) vs k1 = Inr gs \<and>
        find_min_hamming_distance_across_groups (snd (rng i)) gs (length (hd vs)) k2
          = Inr (rres i)) \<and>
    (\<forall>i<nat iterations. \<forall>j<nat iterations.
        fst (rres i) = fst (rres j) \<longrightarrow> (snd (rres i) = None \<longleftrightarrow> snd (rres j) = None))
    \<longrightarrow> (\<exists>i<nat iterations.
           find_min_hamming_using_LSH rng vs iterations = Inr (rres i) \<and>
           (\<forall>j<nat iterations. fst (rres i) \<le> fst (rres j))))"
proof (intro conjI impI)
  assume a: "groups \<noteq> [] \<and> 0 \<le> k \<and> k \<le> int vl \<and>
    (\<forall>g\<in>set groups. find_min_hamming_distance_in_group g drawn = Inr (res g)) \<and>
    (\<forall>g\<in>set groups. \<forall>h\<in>set groups.
        fst (res g) = fst (res h) \<longrightarrow> (snd (res g) = None \<longleftrightarrow> snd (res h) = None))"
  then have a1: "groups \<noteq> []" and a2: "0 \<le> k" and a3: "k \<le> int vl"
    and a4: "\<forall>g\<in>set groups. find_min_hamming_distance_in_group g drawn = Inr (res g)"
    and a5: "\<forall>g\<in>set groups. \<forall>h\<in>set groups.
        fst (res g) = fst (res h) \<longrightarrow> (snd (res g) = None \<longleftrightarrow> snd (res h) = None)"
    by blast+
  show "\<exists>g\<in>set groups.
           find_min_hamming_distance_across_groups drawn groups vl k = Inr (res g) \<and>
           (\<forall>h\<in>set groups. fst (res g) \<le> fst (res h))"
    by (rule across_groups_least[OF a1 a2 a3 a4 a5])
next
  assume b: "0 < iterations \<and> vs \<noteq> [] \<and>
    lsh_width (length vs) = Inr k1 \<and> filter_width (length (hd vs)) = Inr k2 \<and>
    (\<forall>i<nat iterations. \<exists>gs.
        classify_vectors_by_random_bits (fst (rng i)) vs k1 = Inr gs \<and>
        find_min_hamming_distance_across_groups (snd (rng i)) gs (length (hd vs)) k2
          = Inr (rres i)) \<and>
    (\<forall>i<nat iterations. \<forall>j<nat iterations.
        fst (rres i) = fst (rres j) \<longrightarrow> (snd (rres i) = None \<longleftrightarrow> snd (rres j) = None))"
  then have b1: "0 < iterations" and b2: "vs \<noteq> []"
    and b3: "lsh_width (length vs) = Inr k1" and b4: "filter_width (length (hd vs)) = Inr k2"
    and b5: "\<forall>i<nat iterations. \<exists>gs.
        classify_vectors_by_random_bits (fst (rng i)) vs k1 = Inr gs \<and>
        find_min_hamming_distance_across_groups (snd (rng i)) gs (length (hd vs)) k2
          = Inr (rres i)"
    and b6: "\<forall>i<nat iterations. \<forall>j<nat iterations.
        fst (rres i) = fst (rres j) \<longrightarrow> (snd (rres i) = None \<longleftrightarrow> snd (rres j) = None)"
    by blast+
  from b2 obtain v0 rest where vs: "vs = v0 # rest" by (cases vs) auto
  have hd: "hd vs = v0" using vs by simp
  have rounds: "\<forall>i<nat iterations. lsh_round (rng i) vs (length v0) k1 k2 = Inr (rres i)"
  proof (intro allI impI)
    fix i assume "i < nat iterations"
    with b5 obtain gs where "classify_vectors_by_random_bits (fst (rng i)) vs k1 = Inr gs"
      and "find_min_hamming_distance_across_groups (snd (rng i)) gs (length (hd vs)) k2 = Inr (rres i)"
      by blast
    then show "lsh_round (rng i) vs (length v0) k1 k2 = Inr (rres i)"
      using hd by (simp add: lsh_round_def)
  qed
  have "find_min_hamming_using_LSH rng vs iterations = lsh_rounds rng vs (length v0) k1 k2 iterations"
    using b3 b4 hd unfolding find_min_hamming_using_LSH_def vs by (simp del: length_Cons)
  with lsh_rounds_least[OF b1 rounds b6]
  show "\<exists>i<nat iterations.
           find_min_hamming_using_LSH rng vs iterations = Inr (rres i) \<and>
           (\<forall>j<nat iterations. fst (rres i) \<le> fst (rres j))"
    by simp
qed

theorem min_reduction_least_witness:
  "find_min_hamming_distance_across_groups [0, 2]
       [[[0, 0, 0, 0], [0, 0, 0, 1]], [[1, 1, 1, 1], [1, 1, 0, 0]], [[1, 0, 1, 0]]] 4 2
     = Inr (1, Some ([0, 0, 0, 0], [0, 0, 0, 1])) \<and>
   (\<exists>r. find_min_hamming_distance_across_groups [0, 2]
       [[[0, 0, 0, 0], [0, 0, 0, 1]], [[1, 1, 1, 1], [1, 1, 0, 0]], [[1, 0, 1, 0]]] 4 2 = Inr r \<and>
       fst r \<le> 5) \<and>
   find_min_hamming_using_LSH (\<lambda>i. if i = 0 then ([3], [0, 2]) else ([2], [0, 2]))
       [[0, 0, 0, 0], [0, 0, 0, 1], [1, 1, 1, 0], [1, 0, 1, 1]] 2
     = Inr (1, Some ([0, 0, 0, 0], [0, 0, 0, 1])) \<and>
   (\<exists>r. find_min_hamming_using_LSH (\<lambda>i. if i = 0 then ([3], [0, 2]) else ([2], [0, 2]))
       [[0, 0, 0, 0], [0, 0, 0, 1], [1, 1, 1, 0], [1, 0, 1, 1]] 2 = Inr r \<and> fst r \<le> 5)"
proof -
  let ?g1 = "[[0, 0, 0, 0], [0, 0, 0, 1 :: int]]"
  let ?g2 = "[[1, 1, 1, 1], [1, 1, 0, 0 :: int]]"
  let ?g3 = "[[1, 0, 1, 0 :: int]]"
  let ?G = "[?g1, ?g2, ?g3]"
  let ?best = "(1, Some ([0, 0, 0, 0], [0, 0, 0, 1])) :: result"
  let ?none = "(5, None) :: result"
  let ?res = "\<lambda>g. if g = ?g1 then ?best else ?none"
  have e1: "find_min_hamming_distance_in_group ?g1 [0, 2] = Inr ?best" by code_simp
  have e2: "find_min_hamming_distance_in_group ?g2 [0, 2] = Inr ?none" by code_simp
  have e3: "find_min_hamming_distance_in_group ?g3 [0, 2] = Inr ?none" by code_simp
  have evA: "find_min_hamming_distance_across_groups [0, 2] ?G 4 2 = Inr ?best" by code_simp
  have a1: "?G \<noteq> []" by simp
  have a4: "\<forall>g\<in>set ?G. find_min_hamming_distance_in_group g [0, 2] = Inr (?res g)"
    using e1 e2 e3 by simp
  have a5: "\<forall>g\<in>set ?G. \<forall>h\<in>set ?G.
      fst (?res g) = fst (?res h) \<longrightarrow> (snd (?res g) = None \<longleftrightarrow> snd (?res h) = None)"
    by simp
  have hypA: "?G \<noteq> [] \<and> (0 :: int) \<le> 2 \<and> (2 :: int) \<le> int 4 \<and>
      (\<forall>g\<in>set ?G. find_min_hamming_distance_in_group g [0, 2] = Inr (?res g)) \<and>
      (\<forall>g\<in>set ?G. \<forall>h\<in>set ?G.
        fst (?res g) = fst (?res h) \<longrightarrow> (snd (?res g) = None \<longleftrightarrow> snd (?res h) = None))"
    by (intro conjI a1 a4 a5) simp_all
  from min_reduction_least [of ?G 2 4 "[0, 2]" ?res, THEN conjunct1, THEN mp, OF hypA]
  obtain g where g: "g \<in> set ?G"
    and rg: "find_min_hamming_distance_across_groups [0, 2] ?G 4 2 = Inr (?res g)"
    and least: "\<forall>h\<in>set ?G. fst (?res g) \<le> fst (?res h)"
    by (elim bexE conjE)
  have "?g3 \<in> set ?G" by simp
  with least have "fst (?res g) \<le> fst (?res ?g3)" by (rule bspec)
  then have "fst (?res g) \<le> 5" by simp
  with rg have "find_min_hamming_distance_across_groups [0, 2] ?G 4 2 = Inr (?res g) \<and>
      fst (?res g) \<le> 5" by (intro conjI)
  then have exA: "\<exists>r. find_min_hamming_distance_across_groups [0, 2] ?G 4 2 = Inr r \<and> fst r \<le> 5"
    by (rule exI)
  let ?V = "[[0, 0, 0, 0], [0, 0, 0, 1], [1, 1, 1, 0], [1, 0, 1, 1 :: int]]"
  let ?rng = "\<lambda>i :: nat. if i = 0 then ([3 :: nat], [0, 2 :: nat]) else ([2], [0, 2])"
  let ?rres = "\<lambda>i :: nat. if i = 0 then ?none else ?best"
  have c0: "classify_vectors_by_random_bits [3] ?V 1
      = Inr [[[0, 0, 0, 0], [1, 1, 1, 0]], [[0, 0, 0, 1], [1, 0, 1, 1]]]" by code_simp
  have r0: "find_min_hamming_distance_across_groups [0, 2]
      [[[0, 0, 0, 0], [1, 1, 1, 0]], [[0, 0, 0, 1], [1, 0, 1, 1]]] 4 2 = Inr ?none" by code_simp
  have c1: "classify_vectors_by_random_bits [2] ?V 1
      = Inr [[[0, 0, 0, 0], [0, 0, 0, 1]], [[1, 1, 1, 0], [1, 0, 1, 1]]]" by code_simp
  have r1: "find_min_hamming_distance_across_groups [0, 2]
      [[[0, 0, 0, 0], [0, 0, 0, 1]], [[1, 1, 1, 0], [1, 0, 1, 1]]] 4 2 = Inr ?best" by code_simp
  have four: "Suc (Suc (Suc (Suc 0))) = 4" by simp
  have b5: "\<forall>i<nat 2. \<exists>gs.
        classify_vectors_by_random_bits (fst (?rng i)) ?V 1 = Inr gs \<and>
        find_min_hamming_distance_across_groups (snd (?rng i)) gs (length (hd ?V)) 2
          = Inr (?rres i)"
  proof (intro allI impI)
    fix i :: nat assume "i < nat 2"
    then consider "i = 0" | "i = Suc 0" by force
    then show "\<exists>gs.
        classify_vectors_by_random_bits (fst (?rng i)) ?V 1 = Inr gs \<and>
        find_min_hamming_distance_across_groups (snd (?rng i)) gs (length (hd ?V)) 2
          = Inr (?rres i)"
    proof cases
      case 1
      then show ?thesis using c0 r0 by (simp add: four)
    next
      case 2
      then show ?thesis using c1 r1 by (simp add: four)
    qed
  qed
  have b6: "\<forall>i<nat 2. \<forall>j<nat 2.
        fst (?rres i) = fst (?rres j) \<longrightarrow> (snd (?rres i) = None \<longleftrightarrow> snd (?rres j) = None)"
    by simp
  have w1: "lsh_width (length ?V) = Inr 1" using lsh_width_4 by (simp add: four)
  have w2: "filter_width (length (hd ?V)) = Inr 2" using filter_width_4 by (simp add: four)
  have hypB: "(0 :: int) < 2 \<and> ?V \<noteq> [] \<and>
    lsh_width (length ?V) = Inr 1 \<and> filter_width (length (hd ?V)) = Inr 2 \<and>
    (\<forall>i<nat 2. \<exists>gs.
        classify_vectors_by_random_bits (fst (?rng i)) ?V 1 = Inr gs \<and>
        find_min_hamming_distance_across_groups (snd (?rng i)) gs (length (hd ?V)) 2
          = Inr (?rres i)) \<and>
    (\<forall>i<nat 2. \<forall>j<nat 2.
        fst (?rres i) = fst (?rres j) \<longrightarrow> (snd (?rres i) = None \<longleftrightarrow> snd (?rres j) = None))"
    by (intro conjI w1 w2 b5 b6) simp_all
  from min_reduction_least [of _ _ _ _ _ 2 ?V 1 2 ?rng ?rres, THEN conjunct2, THEN mp, OF hypB]
  obtain i where i: "i < nat 2"
    and ri: "find_min_hamming_using_LSH ?rng ?V 2 = Inr (?rres i)"
    and leastB: "\<forall>j<nat 2. fst (?rres i) \<le> fst (?rres j)"
    by (elim exE conjE)
  have "(Suc 0) < nat 2" by simp
  then have "fst (?rres i) \<le> fst (?rres (Suc 0))" using leastB[rule_format] by blast
  then have one: "fst (?rres i) \<le> 1" by simp
  have "i = Suc 0"
  proof (rule ccontr)
    assume "i \<noteq> Suc 0"
    with i have "i = 0" by simp
    with one show False by simp
  qed
  with ri have evB: "find_min_hamming_using_LSH ?rng ?V 2 = Inr ?best" by simp
  then have exB: "\<exists>r. find_min_hamming_using_LSH ?rng ?V 2 = Inr r \<and> fst r \<le> 5" by simp
  from evA exA evB exB show ?thesis by (intro conjI)
qed

end
